theory Spec2Isabelle
  imports Main
begin

section \<open>Data model of the coroutine runtime (internal\_workflow.go)\<close>

text \<open>
  The runtime is single threaded: exactly one coroutine or the dispatcher runs at a
  time, so every method is a function from the state of the heap to its new state.
  Go's \<open>interface{}\<close> payloads are values of \<open>val\<close> (\<open>Nil\<close> is Go's \<open>nil\<close>), an
  \<open>error\<close> is a \<open>string option\<close> (\<open>None\<close> is \<open>nil\<close>), and a panic is the \<open>Inl\<close> side of
  a sum.
\<close>

datatype val = Nil | IntV int | StrV string

type_synonym err = "string option"

datatype panic =
    ClosedChannel        \<comment> \<open>\<open>panic("Closed channel")\<close>\<close>
  | AlreadySet           \<comment> \<open>\<open>panic("already set")\<close>\<close>
  | NotReady             \<comment> \<open>\<open>panic("not ready")\<close>\<close>
  | NotClosed            \<comment> \<open>\<open>panic("not closed")\<close>\<close>
  | DispatcherClosed     \<comment> \<open>\<open>panic("dispatcher is closed")\<close>\<close>
  | AlreadyExecuting     \<comment> \<open>\<open>panic("call to ExecuteUntilAllBlocked ... while it is already running")\<close>\<close>
  | NilDereference       \<comment> \<open>a reference to an object that was never allocated\<close>

text \<open>
  The callbacks stored in a channel are Go closures over local variables of the call
  that built them. Each closure is represented by the place in the source that builds it
  together with the address of the local variables it captured:
  \<^item> \<open>ReceiveCallback k\<close>: the callback of \<open>ReceiveWithMoreFlag\<close>, over the locals
    \<open>result\<close>, \<open>hasResult\<close>, \<open>more\<close> of activation \<open>k\<close>;
  \<^item> \<open>SendCallback k\<close>: the callback of \<open>Send\<close>, over \<open>valueConsumed\<close>;
  \<^item> \<open>SelectReceiveCallback k f\<close>, \<open>SelectReceiveMoreCallback k f\<close>, \<open>SelectSendCallback k f\<close>:
    the callbacks built by \<open>Select\<close> for a case with handler \<open>f\<close>, over \<open>readyBranch\<close> of
    activation \<open>k\<close>;
  \<^item> \<open>SelectFutureCallback k s i f fut\<close>: the callback built for the future case \<open>p\<close>, which is
    case \<open>i\<close> of selector \<open>s\<close> with \<open>p.future = fut\<close>; it also writes \<open>p.futureFunc\<close>.
  A handler (\<open>func(v interface{})\<close> and the like) is user code; it is identified by a
  number and the model records its invocations.
\<close>

type_synonym func = nat

datatype receiveCallback =
    ReceiveCallback nat
  | SelectReceiveCallback nat func
  | SelectReceiveMoreCallback nat func
  | SelectFutureCallback nat nat nat func nat

datatype sendCallback =
    SendCallback nat
  | SelectSendCallback nat func

record valueCallbackPair =
  pair_value :: val
  pair_callback :: sendCallback

record channelImpl =
  ch_name :: string
  ch_size :: int
  buffer :: "val list"
  blockedSends :: "valueCallbackPair list"
  blockedReceives :: "receiveCallback list"
  ch_closed :: bool

text \<open>
  An invocation of a handler, with its arguments: what \<open>f(v)\<close>, \<open>f(v, more)\<close>, \<open>f()\<close>
  and \<open>f(p.future)\<close> do in \<open>Select\<close>. The closures assigned to \<open>readyBranch\<close> are
  exactly these calls, delayed.
\<close>

datatype invocation =
    CallReceive func val
  | CallReceiveMore func val bool
  | CallSend func
  | CallFuture func nat
  | CallDefault func

record selectCase =
  sc_channel :: nat
  receiveFunc :: "func option"
  receiveWithMoreFlagFunc :: "func option"
  sendFunc :: "func option"
  sendValue :: val
  sc_future :: nat
  futureFunc :: "func option"

record selectorImpl =
  sel_name :: string
  cases :: "selectCase list"
  defaultFunc :: "func option"

record receiveLocals =
  result :: val
  hasResult :: bool
  moreFlag :: bool

record futureImpl =
  fvalue :: val
  ferr :: err
  ready :: bool
  channel :: channelImpl
  chained :: "nat list"

record coroutineState =
  co_name :: string
  keptBlocked :: bool
  co_closed :: bool
  panicError :: "string option"

text \<open>
  The heap. Channels and selectors are addressed by number; futures live in a list (a
  reference is an index), and the channel of a future, which its constructor creates
  and which nothing else refers to, is stored inside it. The locals captured by closures
  are addressed by activation number; \<open>nextFrame\<close> is the next unused one.
\<close>

record world =
  channels :: "nat \<Rightarrow> channelImpl"
  futures :: "futureImpl list"
  selectors :: "nat \<Rightarrow> selectorImpl"
  receiveFrames :: "nat \<Rightarrow> receiveLocals"
  valueConsumed :: "nat \<Rightarrow> bool"
  readyBranch :: "nat \<Rightarrow> invocation option"
  nextFrame :: nat

section \<open>Closures\<close>

text \<open>
  \<open>p.futureFunc = nil\<close> on case \<open>i\<close> of selector \<open>s\<close> (\<open>p\<close> points into \<open>s.cases\<close>).
  A selector whose case list has changed length since the closure was built does not
  happen: \<open>cases\<close> only grows.
\<close>

definition clearFutureFunc :: "world \<Rightarrow> nat \<Rightarrow> nat \<Rightarrow> world" where
  "clearFutureFunc w s i =
     (let sel = selectors w s in
      w\<lparr>selectors := (selectors w)
           (s := sel\<lparr>cases := (cases sel)[i := (cases sel ! i)\<lparr>futureFunc := None\<rparr>]\<rparr>)\<rparr>)"

text \<open>Calling a \<open>receiveCallback\<close> with \<open>(v, more)\<close>: the accept bit and the new heap.\<close>

fun callReceiveCallback :: "world \<Rightarrow> receiveCallback \<Rightarrow> val \<Rightarrow> bool \<Rightarrow> bool \<times> world" where
  "callReceiveCallback w (ReceiveCallback k) v m =
     (True, w\<lparr>receiveFrames := (receiveFrames w)
                 (k := \<lparr>result = v, hasResult = True, moreFlag = m\<rparr>)\<rparr>)"
| "callReceiveCallback w (SelectReceiveCallback k f) v m =
     (if readyBranch w k \<noteq> None then (False, w)
      else (True, w\<lparr>readyBranch := (readyBranch w)(k := Some (CallReceive f v))\<rparr>))"
| "callReceiveCallback w (SelectReceiveMoreCallback k f) v m =
     (if readyBranch w k \<noteq> None then (False, w)
      else (True, w\<lparr>readyBranch := (readyBranch w)(k := Some (CallReceiveMore f v m))\<rparr>))"
| "callReceiveCallback w (SelectFutureCallback k s i f fut) v m =
     (if readyBranch w k \<noteq> None then (False, w)
      else (True, (clearFutureFunc w s i)
                    \<lparr>readyBranch := (readyBranch w)(k := Some (CallFuture f fut))\<rparr>))"

text \<open>Calling the \<open>callback\<close> of a \<open>valueCallbackPair\<close>.\<close>

fun callSendCallback :: "world \<Rightarrow> sendCallback \<Rightarrow> bool \<times> world" where
  "callSendCallback w (SendCallback k) =
     (True, w\<lparr>valueConsumed := (valueConsumed w)(k := True)\<rparr>)"
| "callSendCallback w (SelectSendCallback k f) =
     (if readyBranch w k \<noteq> None then (False, w)
      else (True, w\<lparr>readyBranch := (readyBranch w)(k := Some (CallSend f))\<rparr>))"

section \<open>Channel\<close>

text \<open>
  The loop \<open>for len(c.blockedSends) > 0\<close> of \<open>receiveAsyncImpl\<close>: pop the head, call its
  callback, stop at the first that accepts. Returns the value taken (if any), the rest
  of the queue and the heap.
\<close>

fun drainBlockedSends ::
  "world \<Rightarrow> valueCallbackPair list \<Rightarrow> val option \<times> valueCallbackPair list \<times> world" where
  "drainBlockedSends w [] = (None, [], w)"
| "drainBlockedSends w (b # bs) =
     (case callSendCallback w (pair_callback b) of
        (True, w') \<Rightarrow> (Some (pair_value b), bs, w')
      | (False, w') \<Rightarrow> drainBlockedSends w' bs)"

text \<open>
  \<open>receiveAsyncImpl\<close> on the channel value \<open>c\<close>; the result is \<open>((v, ok, more), c', w')\<close>.
  \<open>callback = None\<close> is Go's \<open>nil\<close> callback.
\<close>

definition receiveAsyncImpl ::
  "world \<Rightarrow> channelImpl \<Rightarrow> receiveCallback option
     \<Rightarrow> (val \<times> bool \<times> bool) \<times> channelImpl \<times> world" where
  "receiveAsyncImpl w c callback =
     (if length (buffer c) > 0 then
        ((hd (buffer c), True, True), c\<lparr>buffer := tl (buffer c)\<rparr>, w)
      else if ch_closed c then ((Nil, False, False), c, w)
      else
        (case drainBlockedSends w (blockedSends c) of
           (Some v, bs, w') \<Rightarrow> ((v, True, True), c\<lparr>blockedSends := bs\<rparr>, w')
         | (None, bs, w') \<Rightarrow>
             ((Nil, False, True),
              (case callback of
                 Some cb \<Rightarrow> c\<lparr>blockedSends := bs, blockedReceives := blockedReceives c @ [cb]\<rparr>
               | None \<Rightarrow> c\<lparr>blockedSends := bs\<rparr>),
              w')))"

text \<open>The loop \<open>for len(c.blockedReceives) > 0\<close> of \<open>sendAsyncImpl\<close>.\<close>

fun offerBlockedReceives ::
  "world \<Rightarrow> receiveCallback list \<Rightarrow> val \<Rightarrow> bool \<times> receiveCallback list \<times> world" where
  "offerBlockedReceives w [] v = (False, [], w)"
| "offerBlockedReceives w (blockedGet # rs) v =
     (case callReceiveCallback w blockedGet v True of
        (True, w') \<Rightarrow> (True, rs, w')
      | (False, w') \<Rightarrow> offerBlockedReceives w' rs v)"

definition sendAsyncImpl ::
  "world \<Rightarrow> channelImpl \<Rightarrow> val \<Rightarrow> valueCallbackPair option
     \<Rightarrow> panic + (bool \<times> channelImpl \<times> world)" where
  "sendAsyncImpl w c v pair =
     (if ch_closed c then Inl ClosedChannel
      else
        (case offerBlockedReceives w (blockedReceives c) v of
           (True, rs, w') \<Rightarrow> Inr (True, c\<lparr>blockedReceives := rs\<rparr>, w')
         | (False, rs, w') \<Rightarrow>
             (if int (length (buffer c)) < ch_size c then
                Inr (True, c\<lparr>blockedReceives := rs, buffer := buffer c @ [v]\<rparr>, w')
              else
                Inr (False,
                     (case pair of
                        Some p \<Rightarrow> c\<lparr>blockedReceives := rs, blockedSends := blockedSends c @ [p]\<rparr>
                      | None \<Rightarrow> c\<lparr>blockedReceives := rs\<rparr>),
                     w'))))"

text \<open>
  \<open>Close\<close>: both loops call every callback and ignore what it returns; the queues are
  left as they are.
\<close>

fun closeReceives :: "world \<Rightarrow> receiveCallback list \<Rightarrow> world" where
  "closeReceives w [] = w"
| "closeReceives w (callback # rs) = closeReceives (snd (callReceiveCallback w callback Nil False)) rs"

fun closeSends :: "world \<Rightarrow> valueCallbackPair list \<Rightarrow> world" where
  "closeSends w [] = w"
| "closeSends w (b # bs) = closeSends (snd (callSendCallback w (pair_callback b))) bs"

definition channelImpl_Close :: "world \<Rightarrow> channelImpl \<Rightarrow> channelImpl \<times> world" where
  "channelImpl_Close w c =
     (c\<lparr>ch_closed := True\<rparr>, closeSends (closeReceives w (blockedReceives c)) (blockedSends c))"

section \<open>Blocking operations of a coroutine\<close>

text \<open>
  A blocking call either returns or reaches \<open>state.yield(...)\<close>, which hands control to
  the dispatcher: \<open>Blocked k\<close>, where \<open>k\<close> is the activation that waits. When the
  dispatcher calls the coroutine again, \<open>yield\<close> ends with \<open>s.keptBlocked = true\<close> and
  the loop around it runs once more: the \<open>_resume\<close> functions.
\<close>

datatype 'a outcome = Returned 'a | Blocked nat

definition unblocked :: "coroutineState \<Rightarrow> coroutineState" where
  "unblocked s = s\<lparr>keptBlocked := False\<rparr>"

definition yield_returns :: "coroutineState \<Rightarrow> coroutineState" where
  "yield_returns s = s\<lparr>keptBlocked := True\<rparr>"

text \<open>The body of the \<open>for\<close> loop of \<open>Send\<close>, up to the \<open>yield\<close>.\<close>

definition Send_loop ::
  "world \<Rightarrow> coroutineState \<Rightarrow> nat \<Rightarrow> nat \<Rightarrow> panic + (unit outcome \<times> coroutineState \<times> world)" where
  "Send_loop w state c k =
     (if ch_closed (channels w c) then Inl ClosedChannel
      else if valueConsumed w k then Inr (Returned (), unblocked state, w)
      else Inr (Blocked k, state, w))"

definition Send ::
  "world \<Rightarrow> coroutineState \<Rightarrow> nat \<Rightarrow> val \<Rightarrow> panic + (unit outcome \<times> coroutineState \<times> world)" where
  "Send w state c v =
     (let k = nextFrame w;
          w1 = w\<lparr>nextFrame := Suc k, valueConsumed := (valueConsumed w)(k := False)\<rparr>;
          pair = \<lparr>pair_value = v, pair_callback = SendCallback k\<rparr>
      in case sendAsyncImpl w1 (channels w1 c) v (Some pair) of
           Inl p \<Rightarrow> Inl p
         | Inr (ok, c', w2) \<Rightarrow>
             (let w3 = w2\<lparr>channels := (channels w2)(c := c')\<rparr>
              in if ok then Inr (Returned (), unblocked state, w3)
                 else Send_loop w3 state c k))"

definition Send_resume ::
  "world \<Rightarrow> coroutineState \<Rightarrow> nat \<Rightarrow> nat \<Rightarrow> panic + (unit outcome \<times> coroutineState \<times> world)" where
  "Send_resume w state c k = Send_loop w (yield_returns state) c k"

definition SendAsync :: "world \<Rightarrow> nat \<Rightarrow> val \<Rightarrow> panic + (bool \<times> world)" where
  "SendAsync w c v =
     (case sendAsyncImpl w (channels w c) v None of
        Inl p \<Rightarrow> Inl p
      | Inr (ok, c', w') \<Rightarrow> Inr (ok, w'\<lparr>channels := (channels w')(c := c')\<rparr>))"

text \<open>The body of the \<open>for\<close> loop of \<open>ReceiveWithMoreFlag\<close>, up to the \<open>yield\<close>.\<close>

definition ReceiveWithMoreFlag_loop ::
  "world \<Rightarrow> coroutineState \<Rightarrow> nat \<Rightarrow> (val \<times> bool) outcome \<times> coroutineState \<times> world" where
  "ReceiveWithMoreFlag_loop w state k =
     (if hasResult (receiveFrames w k)
      then (Returned (result (receiveFrames w k), moreFlag (receiveFrames w k)), unblocked state, w)
      else (Blocked k, state, w))"

text \<open>
  \<open>more\<close> is the named result of \<open>ReceiveWithMoreFlag\<close>: the callback writes it, and
  so does \<open>v, ok, more := c.receiveAsyncImpl(callback)\<close>.
\<close>

definition ReceiveWithMoreFlag ::
  "world \<Rightarrow> coroutineState \<Rightarrow> nat \<Rightarrow> (val \<times> bool) outcome \<times> coroutineState \<times> world" where
  "ReceiveWithMoreFlag w state c =
     (let k = nextFrame w;
          w1 = w\<lparr>nextFrame := Suc k,
                 receiveFrames := (receiveFrames w)
                   (k := \<lparr>result = Nil, hasResult = False, moreFlag = False\<rparr>)\<rparr>
      in case receiveAsyncImpl w1 (channels w1 c) (Some (ReceiveCallback k)) of
           ((v, ok, m), c', w2) \<Rightarrow>
             (let w3 = w2\<lparr>channels := (channels w2)(c := c'),
                          receiveFrames := (receiveFrames w2)
                            (k := (receiveFrames w2 k)\<lparr>moreFlag := m\<rparr>)\<rparr>
              in if ok \<or> \<not> m then (Returned (v, m), state, w3)
                 else ReceiveWithMoreFlag_loop w3 state k))"

definition ReceiveWithMoreFlag_resume ::
  "world \<Rightarrow> coroutineState \<Rightarrow> nat \<Rightarrow> (val \<times> bool) outcome \<times> coroutineState \<times> world" where
  "ReceiveWithMoreFlag_resume w state k = ReceiveWithMoreFlag_loop w (yield_returns state) k"

definition ReceiveAsyncWithMoreFlag :: "world \<Rightarrow> nat \<Rightarrow> (val \<times> bool \<times> bool) \<times> world" where
  "ReceiveAsyncWithMoreFlag w c =
     (case receiveAsyncImpl w (channels w c) None of
        (r, c', w') \<Rightarrow> (r, w'\<lparr>channels := (channels w')(c := c')\<rparr>))"

definition ReceiveAsync :: "world \<Rightarrow> nat \<Rightarrow> (val \<times> bool) \<times> world" where
  "ReceiveAsync w c =
     (case ReceiveAsyncWithMoreFlag w c of ((v, ok, m), w') \<Rightarrow> ((v, ok), w'))"

definition Close :: "world \<Rightarrow> nat \<Rightarrow> world" where
  "Close w c =
     (case channelImpl_Close w (channels w c) of
        (c', w') \<Rightarrow> w'\<lparr>channels := (channels w')(c := c')\<rparr>)"

text \<open>\<open>&channelImpl{name: name, size: size}\<close>, as \<open>NewNamedBufferedChannel\<close> builds it.\<close>

definition NewNamedBufferedChannel :: "string \<Rightarrow> int \<Rightarrow> channelImpl" where
  "NewNamedBufferedChannel name sz =
     \<lparr>ch_name = name, ch_size = sz, buffer = [], blockedSends = [],
      blockedReceives = [], ch_closed = False\<rparr>"

text \<open>A coroutine that calls \<open>ReceiveWithMoreFlag\<close> on channel \<open>c\<close> \<open>n\<close> times in a row.\<close>

fun receiveTimes ::
  "nat \<Rightarrow> world \<Rightarrow> coroutineState \<Rightarrow> nat \<Rightarrow> (val \<times> bool) outcome list" where
  "receiveTimes 0 w state c = []"
| "receiveTimes (Suc n) w state c =
     (case ReceiveWithMoreFlag w state c of
        (r, state', w') \<Rightarrow> r # receiveTimes n w' state' c)"

section \<open>Future\<close>

definition IsReady :: "world \<Rightarrow> nat \<Rightarrow> bool" where
  "IsReady w f = ready (futures w ! f)"

definition GetValueAndError :: "world \<Rightarrow> nat \<Rightarrow> val \<times> err" where
  "GetValueAndError w f = (fvalue (futures w ! f), ferr (futures w ! f))"

text \<open>\<open>f.channel.Close()\<close> for the future at index \<open>f\<close>.\<close>

definition closeFutureChannel :: "world \<Rightarrow> nat \<Rightarrow> world" where
  "closeFutureChannel w f =
     (case channelImpl_Close w (channel (futures w ! f)) of
        (c', w') \<Rightarrow> w'\<lparr>futures := (futures w')[f := (futures w' ! f)\<lparr>channel := c'\<rparr>]\<rparr>)"

text \<open>
  \<open>Set\<close> and its loop \<open>for _, ch := range f.chained { ch.Set(f.value, f.err) }\<close>, which
  reads \<open>f.value\<close> and \<open>f.err\<close> from the heap at every iteration. A panic in a nested
  \<open>Set\<close> unwinds through all the callers. The recursion ends because every call that
  goes on marks one more future as ready; the number of futures that are not ready is
  \<open>notReady\<close>.
\<close>

definition notReady :: "world \<Rightarrow> nat" where
  "notReady w = length (filter (\<lambda>fu. \<not> ready fu) (futures w))"

function (sequential) futureImpl_Set :: "world \<Rightarrow> nat \<Rightarrow> val \<Rightarrow> err \<Rightarrow> panic + world"
  and setChained :: "world \<Rightarrow> nat \<Rightarrow> nat list \<Rightarrow> panic + world" where
  "futureImpl_Set w f v e =
     (if length (futures w) \<le> f then Inl NilDereference
      else if ready (futures w ! f) then Inl AlreadySet
      else
        (let w1 = w\<lparr>futures := (futures w)
                      [f := (futures w ! f)\<lparr>fvalue := v, ferr := e, ready := True\<rparr>]\<rparr>;
             w2 = closeFutureChannel w1 f
         in setChained w2 f (chained (futures w2 ! f))))"
| "setChained w f [] = Inr w"
| "setChained w f (ch # chs) =
     (case futureImpl_Set w ch (fvalue (futures w ! f)) (ferr (futures w ! f)) of
        Inl p \<Rightarrow> Inl p
      | Inr w' \<Rightarrow> setChained w' f chs)"
  by pat_completeness auto

lemma callReceiveCallback_futures [simp]:
  "futures (snd (callReceiveCallback w cb v m)) = futures w"
  by (cases cb) (simp_all add: clearFutureFunc_def Let_def)

lemma callSendCallback_futures [simp]:
  "futures (snd (callSendCallback w cb)) = futures w"
  by (cases cb) simp_all

lemma closeReceives_futures [simp]: "futures (closeReceives w rs) = futures w"
  by (induction rs arbitrary: w) simp_all

lemma closeSends_futures [simp]: "futures (closeSends w bs) = futures w"
  by (induction bs arbitrary: w) simp_all

lemma channelImpl_Close_futures [simp]:
  "futures (snd (channelImpl_Close w c)) = futures w"
  by (simp add: channelImpl_Close_def)

lemma filter_update_same:
  "i < length xs \<Longrightarrow> P (xs ! i) = P y \<Longrightarrow>
   length (filter P (xs[i := y])) = length (filter P xs)"
  by (induction xs arbitrary: i) (auto split: nat.splits)

lemma filter_update_less:
  "i < length xs \<Longrightarrow> P (xs ! i) \<Longrightarrow> \<not> P y \<Longrightarrow>
   Suc (length (filter P (xs[i := y]))) = length (filter P xs)"
  by (induction xs arbitrary: i) (auto split: nat.splits simp: filter_update_same)

lemma closeFutureChannel_futures:
  "futures (closeFutureChannel w f) =
     (futures w)[f := (futures w ! f)\<lparr>channel := fst (channelImpl_Close w (channel (futures w ! f)))\<rparr>]"
proof -
  obtain c' w' where cl: "channelImpl_Close w (channel (futures w ! f)) = (c', w')"
    by (cases "channelImpl_Close w (channel (futures w ! f))")
  then have "futures w' = futures w"
    by (metis channelImpl_Close_futures snd_conv)
  then show ?thesis by (simp add: closeFutureChannel_def cl)
qed

lemma closeFutureChannel_length [simp]:
  "length (futures (closeFutureChannel w f)) = length (futures w)"
  by (simp add: closeFutureChannel_futures)

lemma closeFutureChannel_notReady [simp]:
  "notReady (closeFutureChannel w f) = notReady w"
  by (cases "f < length (futures w)")
     (simp_all add: closeFutureChannel_futures notReady_def filter_update_same list_update_beyond)

lemma Set_partial:
  "futureImpl_Set_setChained_dom (Inl (w, f, v, e)) \<Longrightarrow>
     (\<forall>w'. futureImpl_Set w f v e = Inr w' \<longrightarrow>
        notReady w' < notReady w \<and> length (futures w') = length (futures w))"
  "futureImpl_Set_setChained_dom (Inr (w0, f0, chs)) \<Longrightarrow>
     (\<forall>w'. setChained w0 f0 chs = Inr w' \<longrightarrow>
        notReady w' \<le> notReady w0 \<and> length (futures w') = length (futures w0))"
proof (induction w f v e and w0 f0 chs rule: futureImpl_Set_setChained.pinduct)
  case (1 w f v e)
  show ?case
  proof (intro allI impI)
    fix w' assume r: "futureImpl_Set w f v e = Inr w'"
    let ?w1 = "w\<lparr>futures := (futures w)
                    [f := (futures w ! f)\<lparr>fvalue := v, ferr := e, ready := True\<rparr>]\<rparr>"
    let ?w2 = "closeFutureChannel ?w1 f"
    from r 1(1) have lt: "\<not> length (futures w) \<le> f" and nr: "\<not> ready (futures w ! f)"
      and sc: "setChained ?w2 f (chained (futures ?w2 ! f)) = Inr w'"
      by (auto simp: futureImpl_Set.psimps Let_def split: if_splits)
    from 1(2)[OF lt nr refl refl] sc
    have "notReady w' \<le> notReady ?w2" "length (futures w') = length (futures ?w2)" by auto
    moreover have "Suc (notReady ?w1) = notReady w"
      using lt nr by (simp add: notReady_def filter_update_less)
    ultimately show "notReady w' < notReady w \<and> length (futures w') = length (futures w)"
      by simp
  qed
next
  case (2 w f)
  then show ?case by (simp add: setChained.psimps)
next
  case (3 w f ch chs)
  show ?case
  proof (intro allI impI)
    fix w' assume r: "setChained w f (ch # chs) = Inr w'"
    from r 3(1) obtain b where
      b: "futureImpl_Set w ch (fvalue (futures w ! f)) (ferr (futures w ! f)) = Inr b"
      and sc: "setChained b f chs = Inr w'"
      by (auto simp: setChained.psimps split: sum.splits)
    from 3(2) b have "notReady b < notReady w" "length (futures b) = length (futures w)"
      by auto
    moreover from 3(3)[OF b] sc
    have "notReady w' \<le> notReady b" "length (futures w') = length (futures b)"
      by auto
    ultimately show "notReady w' \<le> notReady w \<and> length (futures w') = length (futures w)"
      by simp
  qed
qed

termination futureImpl_Set
proof (relation "measures
         [\<lambda>x. case x of Inl (w, f, v, e) \<Rightarrow> notReady w | Inr (w, f, chs) \<Rightarrow> notReady w,
          \<lambda>x. case x of Inl (w, f, v, e) \<Rightarrow> 0 | Inr (w, f, chs) \<Rightarrow> Suc (length chs)]",
       goal_cases)
  case 1
  show ?case by simp
next
  case (2 w f v e x xa)
  then have "Suc (notReady x) = notReady w"
    by (simp add: notReady_def filter_update_less)
  with 2 show ?case by simp
next
  case (3 w f ch chs)
  show ?case by simp
next
  case (4 w f ch chs x2)
  with Set_partial(1)[OF 4(2)] show ?case by auto
qed

declare futureImpl_Set.simps [simp del]

text \<open>
  The statements of \<open>Set\<close> before its loop: \<open>f.value = value; f.err = err; f.ready = true;
  f.channel.Close()\<close>. This is the heap in which the loop over \<open>f.chained\<close> starts, and
  the heap that a panic of the first nested \<open>Set\<close> leaves behind, since the guard
  \<open>if f.ready { panic("already set") }\<close> changes nothing.
\<close>

definition Set_entry :: "world \<Rightarrow> nat \<Rightarrow> val \<Rightarrow> err \<Rightarrow> world" where
  "Set_entry w f v e =
     closeFutureChannel
       (w\<lparr>futures := (futures w)[f := (futures w ! f)\<lparr>fvalue := v, ferr := e, ready := True\<rparr>]\<rparr>) f"

definition SetValue :: "world \<Rightarrow> nat \<Rightarrow> val \<Rightarrow> panic + world" where
  "SetValue w f v =
     (if length (futures w) \<le> f then Inl NilDereference
      else if ready (futures w ! f) then Inl AlreadySet
      else futureImpl_Set w f v None)"

definition SetError :: "world \<Rightarrow> nat \<Rightarrow> err \<Rightarrow> panic + world" where
  "SetError w f e =
     (if length (futures w) \<le> f then Inl NilDereference
      else if ready (futures w ! f) then Inl AlreadySet
      else futureImpl_Set w f Nil e)"

definition ChainFuture :: "world \<Rightarrow> nat \<Rightarrow> nat \<Rightarrow> world" where
  "ChainFuture w f future =
     w\<lparr>futures := (futures w)[f := (futures w ! f)\<lparr>chained := chained (futures w ! f) @ [future]\<rparr>]\<rparr>"

text \<open>
  \<open>f.Chain(future)\<close>. Every future of the model is a \<open>futureImpl\<close>, so the type
  assertion \<open>future.(asyncFuture)\<close> succeeds.
\<close>

definition Chain :: "world \<Rightarrow> nat \<Rightarrow> nat \<Rightarrow> panic + world" where
  "Chain w f future =
     (if length (futures w) \<le> f \<or> length (futures w) \<le> future then Inl NilDereference
      else if ready (futures w ! f) then Inl AlreadySet
      else if \<not> IsReady w future then Inr (ChainFuture w future f)
      else
        (case GetValueAndError w future of
           (val, err) \<Rightarrow>
             Inr (w\<lparr>futures := (futures w)
                    [f := (futures w ! f)\<lparr>fvalue := val, ferr := err, ready := True\<rparr>]\<rparr>)))"

text \<open>
  \<open>GetAsync\<close>: the result is \<open>(v, ok, err)\<close>. The channel of a future only ever
  signals by being closed, so \<open>more\<close> means that the future is not ready.
\<close>

definition GetAsync ::
  "world \<Rightarrow> nat \<Rightarrow> receiveCallback option \<Rightarrow> panic + ((val \<times> bool \<times> err) \<times> world)" where
  "GetAsync w f callback =
     (if length (futures w) \<le> f then Inl NilDereference
      else
        (case receiveAsyncImpl w (channel (futures w ! f)) callback of
           ((_, _, m), c', w') \<Rightarrow>
             (let w'' = w'\<lparr>futures := (futures w')[f := (futures w' ! f)\<lparr>channel := c'\<rparr>]\<rparr>
              in if m then Inr ((Nil, False, None), w'')
                 else if \<not> ready (futures w'' ! f) then Inl NotReady
                 else Inr ((fvalue (futures w'' ! f), True, ferr (futures w'' ! f)), w''))))"

text \<open>
  Modelled from the spec: the constructor of futures, which is not in this file. "A
  future wraps an internal channel used purely as a one-shot close signal": value and
  error unset, not ready, a new open unbuffered channel, nothing chained.
\<close>

definition newFuture :: "string \<Rightarrow> futureImpl" where
  "newFuture name =
     \<lparr>fvalue = Nil, ferr = None, ready = False,
      channel = NewNamedBufferedChannel name 0, chained = []\<rparr>"

section \<open>Selector\<close>

definition AddReceive :: "selectorImpl \<Rightarrow> nat \<Rightarrow> func \<Rightarrow> selectorImpl" where
  "AddReceive s c f =
     s\<lparr>cases := cases s @
        [\<lparr>sc_channel = c, receiveFunc = Some f, receiveWithMoreFlagFunc = None, sendFunc = None,
          sendValue = Nil, sc_future = 0, futureFunc = None\<rparr>]\<rparr>"

definition AddReceiveWithMoreFlag :: "selectorImpl \<Rightarrow> nat \<Rightarrow> func \<Rightarrow> selectorImpl" where
  "AddReceiveWithMoreFlag s c f =
     s\<lparr>cases := cases s @
        [\<lparr>sc_channel = c, receiveFunc = None, receiveWithMoreFlagFunc = Some f, sendFunc = None,
          sendValue = Nil, sc_future = 0, futureFunc = None\<rparr>]\<rparr>"

definition AddSend :: "selectorImpl \<Rightarrow> nat \<Rightarrow> val \<Rightarrow> func \<Rightarrow> selectorImpl" where
  "AddSend s c v f =
     s\<lparr>cases := cases s @
        [\<lparr>sc_channel = c, receiveFunc = None, receiveWithMoreFlagFunc = None, sendFunc = Some f,
          sendValue = v, sc_future = 0, futureFunc = None\<rparr>]\<rparr>"

definition AddFuture :: "selectorImpl \<Rightarrow> nat \<Rightarrow> func \<Rightarrow> selectorImpl" where
  "AddFuture s future f =
     s\<lparr>cases := cases s @
        [\<lparr>sc_channel = 0, receiveFunc = None, receiveWithMoreFlagFunc = None, sendFunc = None,
          sendValue = Nil, sc_future = future, futureFunc = Some f\<rparr>]\<rparr>"

definition AddDefault :: "selectorImpl \<Rightarrow> func \<Rightarrow> selectorImpl" where
  "AddDefault s f = s\<lparr>defaultFunc := Some f\<rparr>"

definition NewNamedSelector :: "string \<Rightarrow> selectorImpl" where
  "NewNamedSelector name = \<lparr>sel_name = name, cases = [], defaultFunc = None\<rparr>"

text \<open>
  One iteration of \<open>for _, pair := range s.cases\<close> in \<open>Select\<close>, for case \<open>i\<close> of
  selector \<open>s\<close>, with \<open>readyBranch\<close> at activation \<open>k\<close>: \<open>Inr (Some h, w')\<close> when the
  case succeeds at once (\<open>h\<close> is the handler invocation that \<open>Select\<close> makes before it
  returns), \<open>Inr (None, w')\<close> when the loop goes on, \<open>Inl\<close> for a panic.
\<close>

definition select_case ::
  "world \<Rightarrow> nat \<Rightarrow> nat \<Rightarrow> nat \<Rightarrow> panic + (invocation option \<times> world)" where
  "select_case w s k i =
     (let pair = cases (selectors w s) ! i
      in case receiveFunc pair of
           Some f \<Rightarrow>
             (case receiveAsyncImpl w (channels w (sc_channel pair))
                     (Some (SelectReceiveCallback k f)) of
                ((v, ok, m), c', w') \<Rightarrow>
                  (let w'' = w'\<lparr>channels := (channels w')(sc_channel pair := c')\<rparr>
                   in if ok \<or> \<not> m then Inr (Some (CallReceive f v), w'')
                      else Inr (None, w'')))
         | None \<Rightarrow>
         (case receiveWithMoreFlagFunc pair of
            Some f \<Rightarrow>
              (case receiveAsyncImpl w (channels w (sc_channel pair))
                      (Some (SelectReceiveMoreCallback k f)) of
                 ((v, ok, m), c', w') \<Rightarrow>
                   (let w'' = w'\<lparr>channels := (channels w')(sc_channel pair := c')\<rparr>
                    in if ok \<or> \<not> m then Inr (Some (CallReceiveMore f v m), w'')
                       else Inr (None, w'')))
          | None \<Rightarrow>
          (case sendFunc pair of
             Some f \<Rightarrow>
               (case sendAsyncImpl w (channels w (sc_channel pair)) (sendValue pair)
                       (Some \<lparr>pair_value = sendValue pair,
                               pair_callback = SelectSendCallback k f\<rparr>) of
                  Inl p \<Rightarrow> Inl p
                | Inr (ok, c', w') \<Rightarrow>
                    (let w'' = w'\<lparr>channels := (channels w')(sc_channel pair := c')\<rparr>
                     in if ok then Inr (Some (CallSend f), w'') else Inr (None, w'')))
           | None \<Rightarrow>
           (case futureFunc pair of
              Some f \<Rightarrow>
                (case GetAsync w (sc_future pair)
                        (Some (SelectFutureCallback k s i f (sc_future pair))) of
                   Inl p \<Rightarrow> Inl p
                 | Inr ((_, ok, _), w') \<Rightarrow>
                     (if ok then Inr (Some (CallFuture f (sc_future pair)), clearFutureFunc w' s i)
                      else Inr (None, w')))
            | None \<Rightarrow> Inr (None, w)))))"

text \<open>The loop over the cases with the indices \<open>is\<close>, in order, up to the first \<open>return\<close>.\<close>

fun select_cases ::
  "world \<Rightarrow> nat \<Rightarrow> nat \<Rightarrow> nat list \<Rightarrow> panic + (invocation option \<times> world)" where
  "select_cases w s k [] = Inr (None, w)"
| "select_cases w s k (i # is) =
     (case select_case w s k i of
        Inl p \<Rightarrow> Inl p
      | Inr (Some h, w') \<Rightarrow> Inr (Some h, w')
      | Inr (None, w') \<Rightarrow> select_cases w' s k is)"

text \<open>\<open>var readyBranch func()\<close>: a new local variable, \<open>nil\<close>, at activation \<open>nextFrame w\<close>.\<close>

definition Select_enter :: "world \<Rightarrow> world" where
  "Select_enter w =
     w\<lparr>nextFrame := Suc (nextFrame w), readyBranch := (readyBranch w)(nextFrame w := None)\<rparr>"

text \<open>The body of the final \<open>for\<close> loop of \<open>Select\<close>, up to the \<open>yield\<close>.\<close>

definition Select_loop ::
  "world \<Rightarrow> coroutineState \<Rightarrow> nat
     \<Rightarrow> panic + (invocation list outcome \<times> coroutineState \<times> world)" where
  "Select_loop w state k =
     (case readyBranch w k of
        Some h \<Rightarrow> Inr (Returned [h], unblocked state, w)
      | None \<Rightarrow> Inr (Blocked k, state, w))"

text \<open>
  \<open>Select\<close> on the selector at address \<open>s\<close>. It returns the handler invocations it made,
  in order (one on every path that returns), or blocks.
\<close>

definition Select ::
  "world \<Rightarrow> coroutineState \<Rightarrow> nat
     \<Rightarrow> panic + (invocation list outcome \<times> coroutineState \<times> world)" where
  "Select w state s =
     (let k = nextFrame w;
          w1 = Select_enter w
      in case select_cases w1 s k [0 ..< length (cases (selectors w1 s))] of
           Inl p \<Rightarrow> Inl p
         | Inr (Some h, w2) \<Rightarrow> Inr (Returned [h], state, w2)
         | Inr (None, w2) \<Rightarrow>
             (case defaultFunc (selectors w2 s) of
                Some f \<Rightarrow> Inr (Returned [CallDefault f], state, w2)
              | None \<Rightarrow> Select_loop w2 state k))"

definition Select_resume ::
  "world \<Rightarrow> coroutineState \<Rightarrow> nat
     \<Rightarrow> panic + (invocation list outcome \<times> coroutineState \<times> world)" where
  "Select_resume w state k = Select_loop w (yield_returns state) k"

section \<open>Dispatcher\<close>

text \<open>
  \<open>coroutines\<close> is a slice of pointers: the states of the coroutines live in the heap
  \<open>states\<close> and a pointer is an index into it. \<open>user\<close> is everything else that the
  code of the coroutines can read and write (channels, futures, its own variables). The
  mutex only guards \<open>executing\<close> and \<open>closed\<close> against other threads and has no state
  of its own here.
\<close>

record dispatcherImpl =
  sequence :: int
  channelSequence :: int
  selectorSequence :: int
  coroutines :: "nat list"
  executing :: bool
  d_closed :: bool

record 'u runtime =
  dispatcher :: dispatcherImpl
  states :: "coroutineState list"
  user :: 'u

text \<open>
  \<open>newState\<close>: allocate the state, count it in \<open>sequence\<close> and append the pointer.
  \<open>newNamedCoroutine\<close> calls it and starts the goroutine, which waits in its initial
  yield until the dispatcher calls it.
\<close>

definition newState :: "'u runtime \<Rightarrow> string \<Rightarrow> nat \<times> 'u runtime" where
  "newState r name =
     (let c = length (states r)
      in (c, r\<lparr>states := states r @
                  [\<lparr>co_name = name, keptBlocked = False, co_closed = False, panicError = None\<rparr>],
               dispatcher := (dispatcher r)
                  \<lparr>sequence := sequence (dispatcher r) + 1,
                   coroutines := coroutines (dispatcher r) @ [c]\<rparr>\<rparr>))"

definition newNamedCoroutine :: "'u runtime \<Rightarrow> string \<Rightarrow> 'u runtime" where
  "newNamedCoroutine r name = snd (newState r name)"

text \<open>
  The code of the coroutines is a parameter. \<open>code c s u\<close> is what coroutine \<open>c\<close> does
  from the moment \<open>call\<close> unblocks it until it signals \<open>aboutToBlock\<close>, from a \<open>yield\<close>
  or from the deferred \<open>close\<close> of its goroutine: its own state afterwards (\<open>yield\<close>
  and \<open>unblocked\<close> write \<open>keptBlocked\<close>, \<open>close\<close> writes \<open>closed\<close>, the deferred \<open>recover\<close>
  writes \<open>panicError\<close>), the names of the coroutines it created with
  \<open>NewNamedCoroutine\<close>, and the rest of the heap. \<open>None\<close>: it never signals, and
  \<open>call\<close> does not return.
\<close>

type_synonym 'u code = "nat \<Rightarrow> coroutineState \<Rightarrow> 'u \<Rightarrow> (coroutineState \<times> string list \<times> 'u) option"

fun spawnAll :: "string list \<Rightarrow> 'u runtime \<Rightarrow> 'u runtime" where
  "spawnAll [] r = r"
| "spawnAll (name # names) r = spawnAll names (newNamedCoroutine r name)"

definition call :: "'u code \<Rightarrow> 'u runtime \<Rightarrow> nat \<Rightarrow> 'u runtime option" where
  "call code r c =
     (case code c (states r ! c) (user r) of
        None \<Rightarrow> None
      | Some (s', spawned, u') \<Rightarrow>
          Some (spawnAll spawned (r\<lparr>states := (states r)[c := s'], user := u'\<rparr>)))"

text \<open>
  The inner loop \<open>for i := 0; i < len(d.coroutines); i++\<close> of
  \<open>ExecuteUntilAllBlocked\<close>, from index \<open>i\<close> with the current \<open>allBlocked\<close>. It ends the
  whole function when it finds a captured panic (\<open>PanicFound\<close>), or runs to the end of
  the list (\<open>PassDone allBlocked\<close>). The loops need not end (every coroutine may spawn
  another one, or make progress for ever): \<open>n\<close> bounds the number of iterations, and
  \<open>None\<close> is a run that has not returned within the bound.
\<close>

datatype pass = PanicFound string | PassDone bool

fun pass_loop ::
  "nat \<Rightarrow> 'u code \<Rightarrow> 'u runtime \<Rightarrow> nat \<Rightarrow> bool \<Rightarrow> (pass \<times> 'u runtime) option" where
  "pass_loop 0 code r i allBlocked = None"
| "pass_loop (Suc n) code r i allBlocked =
     (if \<not> i < length (coroutines (dispatcher r)) then Some (PassDone allBlocked, r)
      else
        (let c = coroutines (dispatcher r) ! i
         in case (if \<not> co_closed (states r ! c) then call code r c else Some r) of
              None \<Rightarrow> None
            | Some r1 \<Rightarrow>
                (if co_closed (states r1 ! c) then
                   (let r2 = r1\<lparr>dispatcher := (dispatcher r1)
                               \<lparr>coroutines := take i (coroutines (dispatcher r1)) @
                                              drop (Suc i) (coroutines (dispatcher r1))\<rparr>\<rparr>
                    in case panicError (states r2 ! c) of
                         Some p \<Rightarrow> Some (PanicFound p, r2)
                       | None \<Rightarrow> pass_loop n code r2 i False)
                 else
                   pass_loop n code r1 (Suc i)
                     (allBlocked \<and> (keptBlocked (states r1 ! c) \<or> co_closed (states r1 ! c))))))"

text \<open>The outer loop \<open>for !allBlocked\<close>; its body runs at least once.\<close>

fun blocked_loop ::
  "nat \<Rightarrow> 'u code \<Rightarrow> 'u runtime \<Rightarrow> (string option \<times> 'u runtime) option" where
  "blocked_loop 0 code r = None"
| "blocked_loop (Suc n) code r =
     (let lastSequence = sequence (dispatcher r)
      in case pass_loop (Suc n) code r 0 True of
           None \<Rightarrow> None
         | Some (PanicFound p, r') \<Rightarrow> Some (Some p, r')
         | Some (PassDone allBlocked, r') \<Rightarrow>
             (let allBlocked' = (allBlocked \<and> lastSequence = sequence (dispatcher r'))
              in if length (coroutines (dispatcher r')) = 0 then Some (None, r')
                 else if allBlocked' then Some (None, r')
                 else blocked_loop n code r'))"

text \<open>
  \<open>ExecuteUntilAllBlocked\<close>: \<open>Inl\<close> is a panic of the dispatcher itself, \<open>Inr (err, r')\<close>
  the returned \<open>PanicError\<close> (\<open>None\<close> is \<open>nil\<close>) and the new state. The deferred function
  resets \<open>executing\<close> on every return.
\<close>

definition ExecuteUntilAllBlocked ::
  "nat \<Rightarrow> 'u code \<Rightarrow> 'u runtime \<Rightarrow> (panic + (string option \<times> 'u runtime)) option" where
  "ExecuteUntilAllBlocked n code r =
     (if d_closed (dispatcher r) then Some (Inl DispatcherClosed)
      else if executing (dispatcher r) then Some (Inl AlreadyExecuting)
      else
        (case blocked_loop n code (r\<lparr>dispatcher := (dispatcher r)\<lparr>executing := True\<rparr>\<rparr>) of
           None \<Rightarrow> None
         | Some (err, r') \<Rightarrow>
             Some (Inr (err, r'\<lparr>dispatcher := (dispatcher r')\<lparr>executing := False\<rparr>\<rparr>))))"

definition IsDone :: "'u runtime \<Rightarrow> bool" where
  "IsDone r = (length (coroutines (dispatcher r)) = 0)"

text \<open>
  \<open>exit\<close> hands the goroutine of a coroutine that is not closed an unblock function that
  calls \<open>runtime.Goexit()\<close>. The goroutine unwinds: the deferred \<open>recover()\<close> finds no
  panic, and the deferred \<open>close()\<close> sets \<open>closed\<close>.
\<close>

definition exit :: "coroutineState \<Rightarrow> coroutineState" where
  "exit s = (if \<not> co_closed s then s\<lparr>co_closed := True\<rparr> else s)"

fun exit_loop :: "coroutineState list \<Rightarrow> nat list \<Rightarrow> coroutineState list" where
  "exit_loop ss [] = ss"
| "exit_loop ss (c # cs) =
     exit_loop (if \<not> co_closed (ss ! c) then ss[c := exit (ss ! c)] else ss) cs"

definition dispatcherImpl_Close :: "'u runtime \<Rightarrow> 'u runtime" where
  "dispatcherImpl_Close r =
     (if d_closed (dispatcher r) then r
      else
        (let r1 = r\<lparr>dispatcher := (dispatcher r)\<lparr>d_closed := True\<rparr>\<rparr>
         in r1\<lparr>states := exit_loop (states r1) (coroutines (dispatcher r1))\<rparr>))"

section \<open>Invariants and notions of the statements\<close>

text \<open>
  Every pointer in \<open>coroutines\<close> is the address of an allocated state, as in any state
  that \<open>newState\<close> has built.
\<close>

definition validPointers :: "'u runtime \<Rightarrow> bool" where
  "validPointers r \<longleftrightarrow> (\<forall>c \<in> set (coroutines (dispatcher r)). c < length (states r))"

text \<open>Every coroutine of the list is live (not closed) and has \<open>keptBlocked = true\<close>.\<close>

definition allKeptBlocked :: "'u runtime \<Rightarrow> bool" where
  "allKeptBlocked r \<longleftrightarrow>
     (\<forall>c \<in> set (coroutines (dispatcher r)).
        \<not> co_closed (states r ! c) \<and> keptBlocked (states r ! c))"

text \<open>
  \<open>finalPass code r0 r1\<close>: one run of the inner loop over the whole list takes \<open>r0\<close> to
  \<open>r1\<close> and ends with \<open>allBlocked = true\<close>.
\<close>

definition finalPass :: "'u code \<Rightarrow> 'u runtime \<Rightarrow> 'u runtime \<Rightarrow> bool" where
  "finalPass code r0 r1 \<longleftrightarrow> (\<exists>m. pass_loop m code r0 0 True = Some (PassDone True, r1))"

text \<open>What a pass has established when it ends.\<close>

definition passResult :: "'u runtime \<Rightarrow> pass \<Rightarrow> bool" where
  "passResult r' res =
     (case res of
        PassDone allBlocked \<Rightarrow> allBlocked \<longrightarrow> allKeptBlocked r'
      | PanicFound p \<Rightarrow>
          (\<exists>c < length (states r'). co_closed (states r' ! c) \<and> panicError (states r' ! c) = Some p))"

text \<open>
  The coroutines that a run from \<open>r\<close> to \<open>r'\<close> has taken out of the list: those of the
  list of \<open>r\<close>, and those created since, that the list of \<open>r'\<close> no longer holds. The inner
  loop removes a coroutine from the list only when it finds it closed.
\<close>

definition retired :: "'u runtime \<Rightarrow> 'u runtime \<Rightarrow> nat \<Rightarrow> bool" where
  "retired r r' c \<longleftrightarrow>
     c < length (states r') \<and>
     (c \<in> set (coroutines (dispatcher r)) \<or> length (states r) \<le> c) \<and>
     c \<notin> set (coroutines (dispatcher r'))"

text \<open>
  What the loops keep while no panic has been found: the list holds each coroutine once,
  all of them known at the start or created since, and no coroutine taken out of the list
  had captured a panic.
\<close>

definition tracked :: "'u runtime \<Rightarrow> 'u runtime \<Rightarrow> bool" where
  "tracked r0 r \<longleftrightarrow>
     validPointers r \<and> distinct (coroutines (dispatcher r)) \<and>
     length (states r0) \<le> length (states r) \<and>
     (\<forall>c \<in> set (coroutines (dispatcher r)).
        c \<in> set (coroutines (dispatcher r0)) \<or> length (states r0) \<le> c) \<and>
     (\<forall>c. retired r0 r c \<longrightarrow> panicError (states r ! c) = None)"

text \<open>
  \<open>p\<close> is the first captured panic that the dispatcher met: the panic of a closed
  coroutine that it took out of the list, when no other coroutine taken out had one.
\<close>

definition firstPanic :: "'u runtime \<Rightarrow> 'u runtime \<Rightarrow> string \<Rightarrow> bool" where
  "firstPanic r r' p \<longleftrightarrow>
     (\<exists>c. retired r r' c \<and> co_closed (states r' ! c) \<and> panicError (states r' ! c) = Some p \<and>
          (\<forall>d. retired r r' d \<and> d \<noteq> c \<longrightarrow> panicError (states r' ! d) = None))"

text \<open>
  Whether a callback, if called now, would return \<open>false\<close>: the callbacks of \<open>Select\<close>
  refuse once \<open>readyBranch\<close> is set, the callbacks of \<open>Send\<close> and
  \<open>ReceiveWithMoreFlag\<close> always accept.
\<close>

fun receiveRefuses :: "world \<Rightarrow> receiveCallback \<Rightarrow> bool" where
  "receiveRefuses w (ReceiveCallback k) = False"
| "receiveRefuses w (SelectReceiveCallback k f) = (readyBranch w k \<noteq> None)"
| "receiveRefuses w (SelectReceiveMoreCallback k f) = (readyBranch w k \<noteq> None)"
| "receiveRefuses w (SelectFutureCallback k s i f fut) = (readyBranch w k \<noteq> None)"

fun sendRefuses :: "world \<Rightarrow> sendCallback \<Rightarrow> bool" where
  "sendRefuses w (SendCallback k) = False"
| "sendRefuses w (SelectSendCallback k f) = (readyBranch w k \<noteq> None)"

text \<open>
  The kind of a case, as the \<open>if\<close> chain of \<open>Select\<close> decides it, its handler, and the
  function that an invocation calls.
\<close>

definition isReceiveCase :: "selectCase \<Rightarrow> bool" where
  "isReceiveCase pair \<longleftrightarrow> receiveFunc pair \<noteq> None \<or> receiveWithMoreFlagFunc pair \<noteq> None"

definition isSendCase :: "selectCase \<Rightarrow> bool" where
  "isSendCase pair \<longleftrightarrow>
     receiveFunc pair = None \<and> receiveWithMoreFlagFunc pair = None \<and> sendFunc pair \<noteq> None"

definition handler :: "selectCase \<Rightarrow> func option" where
  "handler pair =
     (case receiveFunc pair of
        Some f \<Rightarrow> Some f
      | None \<Rightarrow>
        (case receiveWithMoreFlagFunc pair of
           Some f \<Rightarrow> Some f
         | None \<Rightarrow>
           (case sendFunc pair of
              Some f \<Rightarrow> Some f
            | None \<Rightarrow> futureFunc pair)))"

fun invokedFunc :: "invocation \<Rightarrow> func" where
  "invokedFunc (CallReceive f v) = f"
| "invokedFunc (CallReceiveMore f v m) = f"
| "invokedFunc (CallSend f) = f"
| "invokedFunc (CallFuture f fut) = f"
| "invokedFunc (CallDefault f) = f"

text \<open>
  A sender waits on a channel when a pair in \<open>blockedSends\<close> still offers its value (its
  callback would accept), a receiver waits when a callback in \<open>blockedReceives\<close> still
  wants one.
\<close>

definition senderWaits :: "world \<Rightarrow> channelImpl \<Rightarrow> bool" where
  "senderWaits w c \<longleftrightarrow> (\<exists>b \<in> set (blockedSends c). \<not> sendRefuses w (pair_callback b))"

definition receiverWaits :: "world \<Rightarrow> channelImpl \<Rightarrow> bool" where
  "receiverWaits w c \<longleftrightarrow> (\<exists>r \<in> set (blockedReceives c). \<not> receiveRefuses w r)"

text \<open>
  A case is a future case when the \<open>if\<close> chain of \<open>Select\<close> reaches its last branch.
\<close>

definition isFutureCase :: "selectCase \<Rightarrow> bool" where
  "isFutureCase pair \<longleftrightarrow>
     receiveFunc pair = None \<and> receiveWithMoreFlagFunc pair = None \<and> sendFunc pair = None \<and>
     futureFunc pair \<noteq> None"

text \<open>
  A case that is synchronously ready, read off the heap at the time \<open>Select\<close> is called
  and not off what \<open>Select\<close> does: a receive case is ready when its channel has a
  buffered value, is closed, or has a sender waiting; a send case when its channel is open
  and has a receiver waiting or room in the buffer; a future case when the future is
  ready (\<open>IsReady\<close>). A send case on a closed channel is not ready: sending panics.
\<close>

definition caseReady :: "world \<Rightarrow> selectCase \<Rightarrow> bool" where
  "caseReady w pair \<longleftrightarrow>
     (let c = channels w (sc_channel pair)
      in if isReceiveCase pair then buffer c \<noteq> [] \<or> ch_closed c \<or> senderWaits w c
         else if isSendCase pair then
           \<not> ch_closed c \<and> (receiverWaits w c \<or> int (length (buffer c)) < ch_size c)
         else if isFutureCase pair then IsReady w (sc_future pair)
         else False)"

definition sendOnClosed :: "world \<Rightarrow> selectCase \<Rightarrow> bool" where
  "sendOnClosed w pair \<longleftrightarrow> isSendCase pair \<and> ch_closed (channels w (sc_channel pair))"

text \<open>
  What the handler of a ready case is to be called with: a receive case gets the value on
  offer, which is the head of the buffer, else \<open>nil\<close> when the channel is closed, else the
  value of the first sender that waits; with the more flag, \<open>more\<close> is false only on a
  closed channel with an empty buffer; a future case gets its future.
\<close>

definition firstOffered :: "world \<Rightarrow> channelImpl \<Rightarrow> val" where
  "firstOffered w c =
     (if buffer c \<noteq> [] then hd (buffer c)
      else if ch_closed c then Nil
      else (case filter (\<lambda>b. \<not> sendRefuses w (pair_callback b)) (blockedSends c) of
              b # _ \<Rightarrow> pair_value b
            | [] \<Rightarrow> Nil))"

definition fired :: "world \<Rightarrow> selectCase \<Rightarrow> invocation option" where
  "fired w pair =
     (let c = channels w (sc_channel pair)
      in case receiveFunc pair of
           Some f \<Rightarrow> Some (CallReceive f (firstOffered w c))
         | None \<Rightarrow>
           (case receiveWithMoreFlagFunc pair of
              Some f \<Rightarrow>
                Some (CallReceiveMore f (firstOffered w c) (buffer c \<noteq> [] \<or> \<not> ch_closed c))
            | None \<Rightarrow>
              (case sendFunc pair of
                 Some f \<Rightarrow> Some (CallSend f)
               | None \<Rightarrow>
                 (case futureFunc pair of
                    Some f \<Rightarrow> Some (CallFuture f (sc_future pair))
                  | None \<Rightarrow> None))))"

text \<open>
  The future of a future case is allocated, as in every case that \<open>AddFuture\<close> builds,
  and it is in the state that \<open>Set\<close> leaves a future in: ready exactly when its channel
  is closed. The ready path of \<open>Chain\<close> breaks this (it marks the future ready and leaves
  the channel open).
\<close>

definition futureSignalled :: "world \<Rightarrow> selectCase \<Rightarrow> bool" where
  "futureSignalled w pair \<longleftrightarrow>
     (isFutureCase pair \<longrightarrow>
        sc_future pair < length (futures w) \<and>
        (ready (futures w ! sc_future pair) \<longleftrightarrow>
           ch_closed (channel (futures w ! sc_future pair))))"

text \<open>
  What the attempt of case \<open>i\<close> gives when it is the first thing \<open>Select\<close> does:
  \<open>readyAtCall\<close> is the handler invocation of a case that succeeds at once;
  \<open>passedAtCall\<close> holds for a case that neither succeeds nor panics.
\<close>

definition readyAtCall :: "world \<Rightarrow> nat \<Rightarrow> nat \<Rightarrow> invocation option" where
  "readyAtCall w s i =
     (case select_case (Select_enter w) s (nextFrame w) i of
        Inr (Some h, _) \<Rightarrow> Some h
      | _ \<Rightarrow> None)"

definition passedAtCall :: "world \<Rightarrow> nat \<Rightarrow> nat \<Rightarrow> bool" where
  "passedAtCall w s j =
     (case select_case (Select_enter w) s (nextFrame w) j of
        Inr (None, _) \<Rightarrow> True
      | _ \<Rightarrow> False)"

text \<open>
  No channel is used by a receive case and by a send case of the list.
\<close>

definition noSelfRendezvous :: "selectCase list \<Rightarrow> bool" where
  "noSelfRendezvous cs \<longleftrightarrow>
     (\<forall>p \<in> set cs. \<forall>q \<in> set cs.
        isReceiveCase p \<and> isSendCase q \<longrightarrow> sc_channel p \<noteq> sc_channel q)"

text \<open>
  Nothing is buffered in the channel of a future and no sender waits on it: nothing
  ever sends on it.
\<close>

definition futureChannelsQuiet :: "world \<Rightarrow> bool" where
  "futureChannelsQuiet w \<longleftrightarrow>
     (\<forall>fu \<in> set (futures w). buffer (channel fu) = [] \<and> blockedSends (channel fu) = [])"

text \<open>
  How a channel may differ from what it was when \<open>Select\<close> was called (\<open>c1\<close>, in heap
  \<open>w1\<close>) after cases that did not succeed were attempted on it: receive cases found
  nothing, dropped the senders that refused and queued their callbacks; send cases
  found no room, dropped the receivers that refused and queued their pairs.
\<close>

definition receivedFrom :: "world \<Rightarrow> channelImpl \<Rightarrow> channelImpl \<Rightarrow> bool" where
  "receivedFrom w1 c1 c \<longleftrightarrow>
     buffer c1 = [] \<and> \<not> ch_closed c1 \<and>
     (\<forall>b \<in> set (blockedSends c1). sendRefuses w1 (pair_callback b)) \<and>
     (\<exists>owns. owns \<noteq> [] \<and> (\<forall>r \<in> set owns. \<not> receiveRefuses w1 r) \<and>
        c = c1\<lparr>blockedSends := [], blockedReceives := blockedReceives c1 @ owns\<rparr>)"

definition sentTo :: "world \<Rightarrow> channelImpl \<Rightarrow> channelImpl \<Rightarrow> bool" where
  "sentTo w1 c1 c \<longleftrightarrow>
     \<not> ch_closed c1 \<and> \<not> int (length (buffer c1)) < ch_size c1 \<and>
     (\<forall>r \<in> set (blockedReceives c1). receiveRefuses w1 r) \<and>
     (\<exists>ownp. ownp \<noteq> [] \<and>
        c = c1\<lparr>blockedReceives := [], blockedSends := blockedSends c1 @ ownp\<rparr>)"

text \<open>
  The invariant of the loop of \<open>Select\<close> before case \<open>j\<close>, while no case has succeeded:
  no callback has accepted anything, and channels and futures differ from the heap
  \<open>w1\<close> of the call only by the callbacks registered by the cases before \<open>j\<close>.
\<close>

definition futuresRel :: "world \<Rightarrow> world \<Rightarrow> bool" where
  "futuresRel w1 w \<longleftrightarrow>
     length (futures w) = length (futures w1) \<and>
     (\<forall>f < length (futures w1). \<exists>owns.
        futures w ! f =
          (futures w1 ! f)\<lparr>channel := (channel (futures w1 ! f))
             \<lparr>blockedReceives := blockedReceives (channel (futures w1 ! f)) @ owns\<rparr>\<rparr>)"

definition selectInv :: "world \<Rightarrow> selectCase list \<Rightarrow> nat \<Rightarrow> world \<Rightarrow> bool" where
  "selectInv w1 cs j w \<longleftrightarrow>
     readyBranch w = readyBranch w1 \<and> selectors w = selectors w1 \<and> futuresRel w1 w \<and>
     (\<forall>c. channels w c = channels w1 c \<or>
          (receivedFrom w1 (channels w1 c) (channels w c) \<and>
           (\<exists>j' < j. j' < length cs \<and> isReceiveCase (cs ! j') \<and> sc_channel (cs ! j') = c)) \<or>
          (sentTo w1 (channels w1 c) (channels w c) \<and>
           (\<exists>j' < j. j' < length cs \<and> isSendCase (cs ! j') \<and> sc_channel (cs ! j') = c)))"

text \<open>
  Every reference in a \<open>chained\<close> list is a future of the heap. Go's pointers cannot
  dangle, so every heap the program builds has this property.
\<close>

definition wellFormed :: "world \<Rightarrow> bool" where
  "wellFormed w \<longleftrightarrow>
     (\<forall>g < length (futures w). \<forall>h \<in> set (chained (futures w ! g)). h < length (futures w))"

text \<open>
  What a run of \<open>Set(v, e)\<close> and its cascade may change between two heaps: no future is
  added, no \<open>chained\<close> list changes, a future that was ready is left alone, and a future
  that became ready holds \<open>(v, e)\<close> and its channel is closed.
\<close>

definition cascade :: "val \<Rightarrow> err \<Rightarrow> world \<Rightarrow> world \<Rightarrow> bool" where
  "cascade v e w w' \<longleftrightarrow>
     length (futures w') = length (futures w) \<and>
     (\<forall>g < length (futures w).
        chained (futures w' ! g) = chained (futures w ! g) \<and>
        (ready (futures w ! g) \<longrightarrow> futures w' ! g = futures w ! g) \<and>
        (ready (futures w' ! g) \<and> \<not> ready (futures w ! g) \<longrightarrow>
           fvalue (futures w' ! g) = v \<and> ferr (futures w' ! g) = e \<and>
           ch_closed (channel (futures w' ! g))))"

section \<open>Scenarios\<close>

text \<open>
  A heap with nothing allocated, and the state of a coroutine as \<open>newState\<close> of the
  dispatcher builds it.
\<close>

definition emptyWorld :: world where
  "emptyWorld =
     \<lparr>channels = (\<lambda>_. NewNamedBufferedChannel [] 0), futures = [],
      selectors = (\<lambda>_. \<lparr>sel_name = [], cases = [], defaultFunc = None\<rparr>),
      receiveFrames = (\<lambda>_. \<lparr>result = Nil, hasResult = False, moreFlag = False\<rparr>),
      valueConsumed = (\<lambda>_. False), readyBranch = (\<lambda>_. None), nextFrame = 0\<rparr>"

definition coroutine :: "string \<Rightarrow> coroutineState" where
  "coroutine name =
     \<lparr>co_name = name, keptBlocked = False, co_closed = False, panicError = None\<rparr>"

text \<open>
  An interleaving of sends and receives on one channel, each event performed by some
  coroutine. \<open>initiated\<close> lists the values whose send was started (a \<open>SendAsync\<close> that
  reports \<open>false\<close> sent nothing), \<open>delivered\<close> the values in the order receivers got
  them: at once when the receive returns a value, and for a receiver that blocked
  (\<open>waiting\<close>) when its callback is given the value.
\<close>

datatype event = DoSend val | DoSendAsync val | DoReceive | DoReceiveAsync

record recording =
  initiated :: "val list"
  delivered :: "val list"
  waiting :: "nat list"

definition collect :: "world \<Rightarrow> recording \<Rightarrow> recording" where
  "collect w r =
     r\<lparr>delivered := delivered r @
          map (\<lambda>k. result (receiveFrames w k))
              (filter (\<lambda>k. hasResult (receiveFrames w k)) (waiting r)),
       waiting := filter (\<lambda>k. \<not> hasResult (receiveFrames w k)) (waiting r)\<rparr>"

fun play ::
  "world \<Rightarrow> coroutineState \<Rightarrow> nat \<Rightarrow> event list \<Rightarrow> recording \<Rightarrow> panic + recording" where
  "play w s c [] r = Inr r"
| "play w s c (DoSend v # es) r =
     (case Send w s c v of
        Inl p \<Rightarrow> Inl p
      | Inr (_, _, w') \<Rightarrow> play w' s c es (collect w' (r\<lparr>initiated := initiated r @ [v]\<rparr>)))"
| "play w s c (DoSendAsync v # es) r =
     (case SendAsync w c v of
        Inl p \<Rightarrow> Inl p
      | Inr (ok, w') \<Rightarrow>
          play w' s c es (collect w' (if ok then r\<lparr>initiated := initiated r @ [v]\<rparr> else r)))"
| "play w s c (DoReceive # es) r =
     (case ReceiveWithMoreFlag w s c of
        (Returned (v, m), _, w') \<Rightarrow>
          play w' s c es (if m then r\<lparr>delivered := delivered r @ [v]\<rparr> else r)
      | (Blocked k, _, w') \<Rightarrow> play w' s c es (r\<lparr>waiting := waiting r @ [k]\<rparr>))"
| "play w s c (DoReceiveAsync # es) r =
     (case ReceiveAsyncWithMoreFlag w c of
        ((v, ok, m), w') \<Rightarrow>
          play w' s c es (if ok then r\<lparr>delivered := delivered r @ [v]\<rparr> else r))"

text \<open>A heap whose only channel, at address 0, is \<open>NewNamedBufferedChannel(name, size)\<close>.\<close>

definition oneChannel :: "string \<Rightarrow> int \<Rightarrow> world" where
  "oneChannel name sz =
     emptyWorld\<lparr>channels := (channels emptyWorld)(0 := NewNamedBufferedChannel name sz)\<rparr>"

text \<open>
  Two values are buffered in a channel of capacity 2 and the channel is closed.
\<close>

definition closedWithTwo :: world where
  "closedWithTwo =
     (case Send (oneChannel ''c'' 2) (coroutine ''1'') 0 (IntV 1) of
        Inr (_, _, w1) \<Rightarrow>
          (case Send w1 (coroutine ''1'') 0 (IntV 2) of
             Inr (_, _, w2) \<Rightarrow> Close w2 0
           | Inl _ \<Rightarrow> emptyWorld)
      | Inl _ \<Rightarrow> emptyWorld)"

text \<open>
  A coroutine blocks in \<open>Send\<close> on an unbuffered channel with no receiver, and the
  channel is closed while it waits.
\<close>

definition closedWhileSending :: world where
  "closedWhileSending =
     (case Send (oneChannel ''c'' 0) (coroutine ''1'') 0 (IntV 7) of
        Inr (_, _, w1) \<Rightarrow> Close w1 0
      | Inl _ \<Rightarrow> emptyWorld)"

text \<open>Scenarios with three new futures \<open>f0\<close>, \<open>f1\<close>, \<open>f2\<close> at indices 0, 1, 2.\<close>

definition threeFutures :: world where
  "threeFutures =
     emptyWorld\<lparr>futures := [newFuture ''f0'', newFuture ''f1'', newFuture ''f2'']\<rparr>"

definition valueOr :: "world \<Rightarrow> panic + world \<Rightarrow> world" where
  "valueOr d r = (case r of Inl _ \<Rightarrow> d | Inr w \<Rightarrow> w)"

text \<open>\<open>f1.Chain(f0); f1.Set(5, nil)\<close>: \<open>f1\<close> is in the chained list of \<open>f0\<close> and already set.\<close>

definition chainedThenSet :: world where
  "chainedThenSet =
     valueOr emptyWorld
       (futureImpl_Set (valueOr emptyWorld (Chain threeFutures 1 0)) 1 (IntV 5) None)"

text \<open>\<open>f1.Chain(f0); f2.Chain(f0)\<close>, and then \<open>f0.Set("x", nil)\<close>.\<close>

definition twoChained :: world where
  "twoChained = valueOr emptyWorld (Chain (valueOr emptyWorld (Chain threeFutures 1 0)) 2 0)"

definition twoChainedSet :: world where
  "twoChainedSet = valueOr emptyWorld (futureImpl_Set twoChained 0 (StrV ''x'') None)"

text \<open>\<open>f0.Chain(f1); f0.Chain(f2)\<close>, and then \<open>f1.Set(1, nil)\<close>.\<close>

definition chainedIntoTwo :: world where
  "chainedIntoTwo = valueOr emptyWorld (Chain (valueOr emptyWorld (Chain threeFutures 0 1)) 0 2)"

definition chainedIntoTwoSet :: world where
  "chainedIntoTwoSet = valueOr emptyWorld (futureImpl_Set chainedIntoTwo 1 (IntV 1) None)"

text \<open>
  \<open>f2.Chain(f0); f1.Set("x", nil)\<close>: \<open>f0\<close> is not ready and has \<open>f2\<close> chained to it,
  \<open>f1\<close> is ready. Then either \<open>f0.Chain(f1)\<close> or \<open>f0.Set("x", nil)\<close>.
\<close>

definition readyToChain :: world where
  "readyToChain =
     valueOr emptyWorld
       (futureImpl_Set (valueOr emptyWorld (Chain threeFutures 2 0)) 1 (StrV ''x'') None)"

definition afterChain :: world where
  "afterChain = valueOr emptyWorld (Chain readyToChain 0 1)"

definition afterSet :: world where
  "afterSet = valueOr emptyWorld (futureImpl_Set readyToChain 0 (StrV ''x'') None)"

text \<open>
  Four new futures \<open>f\<close>, \<open>a\<close>, \<open>b\<close>, \<open>g\<close> at indices 0, 1, 2, 3 and
  \<open>g.Chain(a); f.Chain(a); f.Chain(b); g.Set(7, nil)\<close>: \<open>f\<close> is in the chained lists of
  \<open>a\<close> and \<open>b\<close>, which are not ready, and in the list of \<open>a\<close> the ready \<open>g\<close> stands before
  \<open>f\<close>. \<open>firstPanicked\<close> is the heap when \<open>a.Set(1, nil)\<close> panics at \<open>g\<close>,
  \<open>secondReturned\<close> the heap after \<open>b.Set(2, nil)\<close>, called next.
\<close>

definition fourFutures :: world where
  "fourFutures =
     emptyWorld\<lparr>futures := [newFuture ''f'', newFuture ''a'', newFuture ''b'', newFuture ''g'']\<rparr>"

definition readyAhead :: world where
  "readyAhead =
     valueOr emptyWorld
       (futureImpl_Set
          (valueOr emptyWorld
             (Chain (valueOr emptyWorld (Chain (valueOr emptyWorld (Chain fourFutures 3 1)) 0 1)) 0 2))
          3 (IntV 7) None)"

definition firstPanicked :: world where
  "firstPanicked = Set_entry readyAhead 1 (IntV 1) None"

definition secondReturned :: world where
  "secondReturned = valueOr emptyWorld (futureImpl_Set firstPanicked 2 (IntV 2) None)"

text \<open>
  Scenarios of the dispatcher. The heap of the user code is a counter. In all of them
  the dispatcher starts with the coroutines \<open>"1"\<close> (and \<open>"2"\<close>) at addresses 0 (and 1).
  \<^item> \<open>spawnsOnce\<close>: coroutine 0 makes progress and creates coroutine \<open>"3"\<close> when first
    called and is blocked afterwards, coroutine 1 returns at once, every other
    coroutine is blocked.
  \<^item> \<open>secondPanics\<close>: coroutine 0 makes progress and yields, coroutine 1 panics with
    "Closed channel".
  \<^item> \<open>spawnsAndEnds\<close>: coroutine 0 creates coroutine \<open>"2"\<close> and returns, and so does every
    other coroutine.
\<close>

definition emptyRuntime :: "'u \<Rightarrow> 'u runtime" where
  "emptyRuntime u =
     \<lparr>dispatcher = \<lparr>sequence = 0, channelSequence = 0, selectorSequence = 0, coroutines = [],
                     executing = False, d_closed = False\<rparr>,
      states = [], user = u\<rparr>"

definition twoCoroutines :: "nat runtime" where
  "twoCoroutines = newNamedCoroutine (newNamedCoroutine (emptyRuntime 0) ''1'') ''2''"

definition spawnsOnce :: "nat code" where
  "spawnsOnce c s u =
     (if c = 0 then
        (if u = 0 then Some (s\<lparr>keptBlocked := False\<rparr>, [''3''], 1)
         else Some (s\<lparr>keptBlocked := True\<rparr>, [], u))
      else if c = 1 then Some (s\<lparr>co_closed := True\<rparr>, [], u)
      else Some (s\<lparr>keptBlocked := True\<rparr>, [], u))"

definition secondPanics :: "nat code" where
  "secondPanics c s u =
     (if c = 0 then Some (s\<lparr>keptBlocked := False\<rparr>, [], u)
      else Some (s\<lparr>co_closed := True, panicError := Some ''Closed channel''\<rparr>, [], u))"

definition spawnsAndEnds :: "nat code" where
  "spawnsAndEnds c s u =
     (if c = 0 then Some (s\<lparr>co_closed := True\<rparr>, [''2''], u)
      else Some (s\<lparr>co_closed := True\<rparr>, [], u))"

definition oneCoroutine :: "nat runtime" where
  "oneCoroutine = newNamedCoroutine (emptyRuntime 0) ''1''"

definition runtimeAfter :: "(panic + string option \<times> nat runtime) option \<Rightarrow> nat runtime" where
  "runtimeAfter x = (case x of Some (Inr (_, r)) \<Rightarrow> r | _ \<Rightarrow> emptyRuntime 0)"

definition returned :: "(panic + string option \<times> nat runtime) option \<Rightarrow> (panic + string option) option" where
  "returned x = map_option (map_sum id fst) x"

definition nowExecuting :: "'u runtime \<Rightarrow> 'u runtime" where
  "nowExecuting r = r\<lparr>dispatcher := (dispatcher r)\<lparr>executing := True\<rparr>\<rparr>"

text \<open>
  Scenarios of the selector, all with the selector at address 0.
  \<^item> \<open>receiveOrDefault\<close>: a receive case (handler 10) on the empty open channel 0, and a
    default (handler 99).
  \<^item> \<open>thirdReady\<close>: a future case on the new future 0 (handler 30), a send case on the
    empty unbuffered channel 0 with nobody waiting (handler 20), and a receive case on
    channel 1, which has 7 in its buffer (handler 11).
  \<^item> \<open>sendClosedReceiveReady\<close>: a send case on the closed channel 0 (handler 20), then
    a receive case on channel 1, which has 7 in its buffer (handler 10).
  \<^item> \<open>receiveThenSendSame\<close>: a receive case (handler 10) and a send case (handler 20)
    on the empty unbuffered channel 0 with nobody waiting, then a receive case on
    channel 1, which has 7 in its buffer (handler 11).
  \<^item> \<open>chainedReadyOrDefault\<close>: in the heap \<open>afterChain\<close>, where \<open>f0\<close> was made ready by
    \<open>f0.Chain(f1)\<close>, a future case on \<open>f0\<close> (handler 30) and a default (handler 99);
    \<open>chainedReadyOnly\<close> has the future case alone.
  \<^item> \<open>defaultTaken\<close>: the heap after \<open>Select\<close> in \<open>receiveOrDefault\<close>.
\<close>

definition receiveOrDefault :: world where
  "receiveOrDefault =
     (oneChannel ''c'' 0)\<lparr>selectors := (selectors (oneChannel ''c'' 0))
        (0 := AddDefault (AddReceive (NewNamedSelector ''s'') 0 10) 99)\<rparr>"

definition thirdReady :: world where
  "thirdReady =
     emptyWorld\<lparr>channels := (channels emptyWorld)
        (0 := NewNamedBufferedChannel ''a'' 0,
         1 := (NewNamedBufferedChannel ''b'' 1)\<lparr>buffer := [IntV 7]\<rparr>),
       futures := [newFuture ''f0''],
       selectors := (selectors emptyWorld)
        (0 := AddReceive (AddSend (AddFuture (NewNamedSelector ''s'') 0 30) 0 (IntV 1) 20) 1 11)\<rparr>"

definition sendClosedReceiveReady :: world where
  "sendClosedReceiveReady =
     emptyWorld\<lparr>channels := (channels emptyWorld)
        (0 := (NewNamedBufferedChannel ''a'' 0)\<lparr>ch_closed := True\<rparr>,
         1 := (NewNamedBufferedChannel ''b'' 1)\<lparr>buffer := [IntV 7]\<rparr>),
       selectors := (selectors emptyWorld)
        (0 := AddReceive (AddSend (NewNamedSelector ''s'') 0 (IntV 1) 20) 1 10)\<rparr>"

definition receiveThenSendSame :: world where
  "receiveThenSendSame =
     emptyWorld\<lparr>channels := (channels emptyWorld)
        (0 := NewNamedBufferedChannel ''a'' 0,
         1 := (NewNamedBufferedChannel ''b'' 1)\<lparr>buffer := [IntV 7]\<rparr>),
       selectors := (selectors emptyWorld)
        (0 := AddReceive (AddSend (AddReceive (NewNamedSelector ''s'') 0 10) 0 (IntV 1) 20) 1 11)\<rparr>"

definition selected ::
  "panic + (invocation list outcome \<times> coroutineState \<times> world) \<Rightarrow> panic + invocation list outcome" where
  "selected x = map_sum id fst x"

definition worldAfter :: "panic + ('a \<times> coroutineState \<times> world) \<Rightarrow> world" where
  "worldAfter x = (case x of Inr (_, _, w) \<Rightarrow> w | Inl _ \<Rightarrow> emptyWorld)"

definition chainedReadyOrDefault :: world where
  "chainedReadyOrDefault =
     afterChain\<lparr>selectors := (selectors afterChain)
        (0 := AddDefault (AddFuture (NewNamedSelector ''s'') 0 30) 99)\<rparr>"

definition chainedReadyOnly :: world where
  "chainedReadyOnly =
     afterChain\<lparr>selectors := (selectors afterChain)
        (0 := AddFuture (NewNamedSelector ''s'') 0 30)\<rparr>"

definition defaultTaken :: world where
  "defaultTaken = worldAfter (Select receiveOrDefault (coroutine ''1'') 0)"

section \<open>Properties of channels\<close>

lemma Close_closed: "ch_closed (channels (Close w c) c)"
  by (simp add: Close_def channelImpl_Close_def)

lemma receive_closed_step:
  "ch_closed (channels w c) \<Longrightarrow> buffer (channels w c) = b # bs \<Longrightarrow>
   \<exists>w'. ReceiveWithMoreFlag w state c = (Returned (b, True), state, w') \<and>
        ch_closed (channels w' c) \<and> buffer (channels w' c) = bs"
  by (simp add: ReceiveWithMoreFlag_def receiveAsyncImpl_def Let_def)

lemma receive_closed_empty:
  "ch_closed (channels w c) \<Longrightarrow> buffer (channels w c) = [] \<Longrightarrow>
   \<exists>w'. ReceiveWithMoreFlag w state c = (Returned (Nil, False), state, w') \<and>
        ch_closed (channels w' c) \<and> buffer (channels w' c) = []"
  by (simp add: ReceiveWithMoreFlag_def receiveAsyncImpl_def Let_def)

lemma receiveTimes_drained:
  "ch_closed (channels w c) \<Longrightarrow> buffer (channels w c) = [] \<Longrightarrow>
   receiveTimes n w state c = replicate n (Returned (Nil, False))"
proof (induction n arbitrary: w)
  case 0
  show ?case by simp
next
  case (Suc n)
  from receive_closed_empty[OF Suc.prems, of state] obtain w' where
    "ReceiveWithMoreFlag w state c = (Returned (Nil, False), state, w')"
    "ch_closed (channels w' c)" "buffer (channels w' c) = []" by blast
  then show ?case using Suc.IH[of w'] by simp
qed

lemma take_Cons_replicate:
  "take m (x # replicate n x) = replicate (min m (Suc n)) x"
  by (metis replicate_Suc take_replicate)

text \<open>
  C7. On a closed channel, \<open>n\<close> calls of \<open>ReceiveWithMoreFlag\<close> in a row all return: first
  the buffered values in order, each with \<open>more = true\<close>, and from then on
  \<open>(nil, false)\<close>, however large \<open>n\<close> is.
\<close>

theorem closed_channel_receive:
  "ch_closed (channels w c) \<Longrightarrow>
   receiveTimes n w state c =
     take n (map (\<lambda>v. Returned (v, True)) (buffer (channels w c))
             @ replicate n (Returned (Nil, False)))"
proof (induction n arbitrary: w)
  case 0
  show ?case by simp
next
  case (Suc n)
  show ?case
  proof (cases "buffer (channels w c)")
    case Nil
    then show ?thesis
      using receiveTimes_drained[OF Suc.prems Nil, of "Suc n" state] by simp
  next
    case (Cons b bs)
    from receive_closed_step[OF Suc.prems Cons, of state] obtain w' where
      "ReceiveWithMoreFlag w state c = (Returned (b, True), state, w')"
      "ch_closed (channels w' c)" "buffer (channels w' c) = bs" by blast
    then show ?thesis using Suc.IH[of w'] Cons
      by (simp add: take_Cons_replicate min_def)
  qed
qed

lemmas scenario_defs =
  oneChannel_def emptyWorld_def coroutine_def NewNamedBufferedChannel_def
  Send_def Send_loop_def Send_resume_def SendAsync_def sendAsyncImpl_def
  ReceiveWithMoreFlag_def ReceiveWithMoreFlag_loop_def ReceiveAsyncWithMoreFlag_def
  receiveAsyncImpl_def Close_def channelImpl_Close_def
  unblocked_def yield_returns_def collect_def Let_def

theorem closed_channel_receive_witness:
  "ch_closed (channels closedWithTwo 0) \<and>
   receiveTimes 4 closedWithTwo (coroutine ''2'') 0 =
     [Returned (IntV 1, True), Returned (IntV 2, True),
      Returned (Nil, False), Returned (Nil, False)]"
proof -
  have closed: "ch_closed (channels closedWithTwo 0)"
    by (simp add: closedWithTwo_def scenario_defs)
  have buf: "buffer (channels closedWithTwo 0) = [IntV 1, IntV 2]"
    by (simp add: closedWithTwo_def scenario_defs)
  show ?thesis
    using closed closed_channel_receive[OF closed, of 4 "coroutine ''2''"]
    by (simp add: buf numeral_eq_Suc)
qed

text \<open>
  C8. On a closed channel \<open>Send\<close> and \<open>SendAsync\<close> panic with "Closed channel", and so
  does a \<open>Send\<close> that is resumed from its \<open>yield\<close> (activation \<open>k\<close>) when the channel is
  closed, whether or not its value was consumed; \<open>Close\<close> leaves the channel closed, so a
  \<open>Send\<close> that was blocked when \<open>Close\<close> ran panics when it is resumed.
\<close>

theorem send_on_closed_channel:
  "(ch_closed (channels w c) \<longrightarrow>
      Send w state c v = Inl ClosedChannel \<and>
      SendAsync w c v = Inl ClosedChannel \<and>
      Send_resume w state c k = Inl ClosedChannel) \<and>
   Send_resume (Close w c) state c k = Inl ClosedChannel"
  by (simp add: Send_def SendAsync_def Send_resume_def Send_loop_def sendAsyncImpl_def
        Let_def Close_closed)

theorem send_on_closed_channel_witness:
  "Send (oneChannel ''c'' 0) (coroutine ''1'') 0 (IntV 7) \<noteq> Inl ClosedChannel \<and>
   ch_closed (channels closedWhileSending 0) \<and>
   Send closedWhileSending (coroutine ''2'') 0 (IntV 8) = Inl ClosedChannel \<and>
   SendAsync closedWhileSending 0 (IntV 8) = Inl ClosedChannel \<and>
   Send_resume closedWhileSending (coroutine ''1'') 0 0 = Inl ClosedChannel"
proof -
  have closed: "ch_closed (channels closedWhileSending 0)"
    by (simp add: closedWhileSending_def scenario_defs)
  have blocks: "Send (oneChannel ''c'' 0) (coroutine ''1'') 0 (IntV 7) \<noteq> Inl ClosedChannel"
    by (simp add: scenario_defs)
  show ?thesis
    using closed blocks
      send_on_closed_channel[of closedWhileSending 0 "coroutine ''2''" "IntV 8" 0]
      send_on_closed_channel[of closedWhileSending 0 "coroutine ''1''" "IntV 8" 0]
    by simp
qed

text \<open>
  C1. The order of delivery is not the order of the sends. On a channel of capacity 1:
  \<open>Send(1)\<close> is buffered, \<open>Send(2)\<close> blocks, a receive takes 1 from the buffer and leaves
  the blocked sender where it is, \<open>SendAsync(3)\<close> finds room in the buffer, and the next
  two receives get 3 and then 2.
\<close>

theorem fifo_violated_after_buffer_receive:
  "play (oneChannel ''c'' 1) (coroutine ''1'') 0
        [DoSend (IntV 1), DoSend (IntV 2), DoReceive, DoSendAsync (IntV 3), DoReceive, DoReceive]
        \<lparr>initiated = [], delivered = [], waiting = []\<rparr>
   = Inr \<lparr>initiated = [IntV 1, IntV 2, IntV 3],
          delivered = [IntV 1, IntV 3, IntV 2], waiting = []\<rparr>"
  by (simp add: scenario_defs)

section \<open>Properties of futures\<close>

lemmas future_defs =
  threeFutures_def valueOr_def chainedThenSet_def twoChained_def twoChainedSet_def
  chainedIntoTwo_def chainedIntoTwoSet_def readyToChain_def afterChain_def afterSet_def
  fourFutures_def readyAhead_def firstPanicked_def secondReturned_def Set_entry_def
  newFuture_def Chain_def ChainFuture_def IsReady_def GetValueAndError_def
  closeFutureChannel_def emptyWorld_def NewNamedBufferedChannel_def channelImpl_Close_def
  futureImpl_Set.simps Let_def

lemma cascade_refl: "cascade v e w w"
  by (simp add: cascade_def)

lemma cascade_trans: "cascade v e w w1 \<Longrightarrow> cascade v e w1 w2 \<Longrightarrow> cascade v e w w2"
  unfolding cascade_def by (intro conjI allI impI; metis)

lemma cascade_wellFormed: "cascade v e w w' \<Longrightarrow> wellFormed w \<Longrightarrow> wellFormed w'"
  unfolding cascade_def wellFormed_def by metis

lemma channelImpl_Close_closed [simp]: "ch_closed (fst (channelImpl_Close w c))"
  by (simp add: channelImpl_Close_def)

lemma channelImpl_Close_fst: "fst (channelImpl_Close w c) = c\<lparr>ch_closed := True\<rparr>"
  by (simp add: channelImpl_Close_def)

lemma cascade_first_step:
  fixes w :: world and f :: nat and v :: val and e :: err
  assumes "f < length (futures w)" "\<not> ready (futures w ! f)"
  defines "w2 \<equiv> closeFutureChannel
     (w\<lparr>futures := (futures w)[f := (futures w ! f)\<lparr>fvalue := v, ferr := e, ready := True\<rparr>]\<rparr>) f"
  shows "cascade v e w w2" "ready (futures w2 ! f)" "fvalue (futures w2 ! f) = v"
        "ferr (futures w2 ! f) = e" "ch_closed (channel (futures w2 ! f))"
        "chained (futures w2 ! f) = chained (futures w ! f)"
  using assms(1,2) unfolding w2_def cascade_def
  by (auto simp: closeFutureChannel_futures nth_list_update)

lemma Set_cascade:
  "\<forall>w'. futureImpl_Set w f v e = Inr w' \<longrightarrow>
      cascade v e w w' \<and> f < length (futures w) \<and> \<not> ready (futures w ! f) \<and>
      ready (futures w' ! f)"
  "f0 < length (futures w0) \<longrightarrow> ready (futures w0 ! f0) \<longrightarrow>
     (\<forall>w'. setChained w0 f0 chs = Inr w' \<longrightarrow>
        cascade (fvalue (futures w0 ! f0)) (ferr (futures w0 ! f0)) w0 w' \<and>
        (\<forall>h \<in> set chs. h < length (futures w0) \<and> \<not> ready (futures w0 ! h) \<and>
                       ready (futures w' ! h)))"
proof (induction w f v e and w0 f0 chs rule: futureImpl_Set_setChained.induct)
  case (1 w f v e)
  show ?case
  proof (intro allI impI)
    fix w' assume r: "futureImpl_Set w f v e = Inr w'"
    let ?w1 = "w\<lparr>futures := (futures w)
                    [f := (futures w ! f)\<lparr>fvalue := v, ferr := e, ready := True\<rparr>]\<rparr>"
    let ?w2 = "closeFutureChannel ?w1 f"
    from r have lt: "\<not> length (futures w) \<le> f" and nr: "\<not> ready (futures w ! f)"
      and sc: "setChained ?w2 f (chained (futures ?w2 ! f)) = Inr w'"
      by (auto simp: futureImpl_Set.simps Let_def split: if_splits)
    from lt have lt': "f < length (futures w)" by simp
    note st = cascade_first_step[OF lt' nr, where v = v and e = e]
    from 1[OF lt nr refl refl] sc st(2,3,4) lt'
    have c2: "cascade v e ?w2 w'" by simp
    from c2 st(2) lt' have "ready (futures w' ! f)"
      by (simp add: cascade_def)
    with cascade_trans[OF st(1) c2] lt' nr
    show "cascade v e w w' \<and> f < length (futures w) \<and> \<not> ready (futures w ! f) \<and>
          ready (futures w' ! f)" by simp
  qed
next
  case (2 w f)
  show ?case by (simp add: cascade_refl)
next
  case (3 w f ch chs)
  show ?case
  proof (intro allI impI)
    fix w' assume lt: "f < length (futures w)" and rd: "ready (futures w ! f)"
      and r: "setChained w f (ch # chs) = Inr w'"
    let ?v = "fvalue (futures w ! f)" and ?e = "ferr (futures w ! f)"
    from r obtain b where b: "futureImpl_Set w ch ?v ?e = Inr b"
      and sc: "setChained b f chs = Inr w'"
      by (auto split: sum.splits)
    from 3(1) b have cb: "cascade ?v ?e w b" and chlt: "ch < length (futures w)"
      and chnr: "\<not> ready (futures w ! ch)" and chr: "ready (futures b ! ch)" by auto
    from cb lt rd have same: "futures b ! f = futures w ! f" and len: "length (futures b) = length (futures w)"
      by (auto simp: cascade_def)
    from 3(2)[OF b] sc lt rd same len
    have cw: "cascade ?v ?e b w'"
      and rest: "\<forall>h \<in> set chs. h < length (futures b) \<and> \<not> ready (futures b ! h) \<and> ready (futures w' ! h)"
      by auto
    have "ready (futures w' ! ch)" using cw chr chlt len by (simp add: cascade_def)
    moreover have "\<forall>h \<in> set chs. h < length (futures w) \<and> \<not> ready (futures w ! h) \<and> ready (futures w' ! h)"
      using rest cb len by (auto simp: cascade_def)
    ultimately show "cascade ?v ?e w w' \<and>
        (\<forall>h \<in> set (ch # chs). h < length (futures w) \<and> \<not> ready (futures w ! h) \<and> ready (futures w' ! h))"
      using cascade_trans[OF cb cw] chlt chnr by simp
  qed
qed

lemma Set_only_AlreadySet:
  "wellFormed w \<longrightarrow> f < length (futures w) \<longrightarrow>
     (\<forall>p. futureImpl_Set w f v e = Inl p \<longrightarrow> p = AlreadySet)"
  "wellFormed w0 \<longrightarrow> f0 < length (futures w0) \<longrightarrow> ready (futures w0 ! f0) \<longrightarrow>
     (\<forall>h \<in> set chs. h < length (futures w0)) \<longrightarrow>
     (\<forall>p. setChained w0 f0 chs = Inl p \<longrightarrow> p = AlreadySet)"
proof (induction w f v e and w0 f0 chs rule: futureImpl_Set_setChained.induct)
  case (1 w f v e)
  show ?case
  proof (intro allI impI)
    fix p assume wf: "wellFormed w" and lt: "f < length (futures w)"
      and r: "futureImpl_Set w f v e = Inl p"
    let ?w1 = "w\<lparr>futures := (futures w)
                    [f := (futures w ! f)\<lparr>fvalue := v, ferr := e, ready := True\<rparr>]\<rparr>"
    let ?w2 = "closeFutureChannel ?w1 f"
    show "p = AlreadySet"
    proof (cases "ready (futures w ! f)")
      case True
      with r lt show ?thesis by (simp add: futureImpl_Set.simps)
    next
      case False
      note st = cascade_first_step[OF lt False, where v = v and e = e]
      from r lt False have sc: "setChained ?w2 f (chained (futures ?w2 ! f)) = Inl p"
        by (simp add: futureImpl_Set.simps Let_def)
      have wf2: "wellFormed ?w2" using cascade_wellFormed[OF st(1) wf] .
      have "\<forall>h \<in> set (chained (futures ?w2 ! f)). h < length (futures ?w2)"
        using wf lt st(6) by (simp add: wellFormed_def)
      with 1[of ?w1 ?w2] lt False wf2 st(2) sc show ?thesis by simp
    qed
  qed
next
  case (2 w f)
  show ?case by simp
next
  case (3 w f ch chs)
  show ?case
  proof (intro allI impI)
    fix p assume wf: "wellFormed w" and lt: "f < length (futures w)"
      and rd: "ready (futures w ! f)"
      and all: "\<forall>h \<in> set (ch # chs). h < length (futures w)"
      and r: "setChained w f (ch # chs) = Inl p"
    let ?v = "fvalue (futures w ! f)" and ?e = "ferr (futures w ! f)"
    show "p = AlreadySet"
    proof (cases "futureImpl_Set w ch ?v ?e")
      case (Inl q)
      with r have "q = p" by simp
      with 3(1) wf all Inl show ?thesis by simp
    next
      case (Inr b)
      with r have sc: "setChained b f chs = Inl p" by simp
      from Set_cascade(1)[of w ch ?v ?e] Inr have cb: "cascade ?v ?e w b" by simp
      then have "length (futures b) = length (futures w)" "futures b ! f = futures w ! f"
        using lt rd by (auto simp: cascade_def)
      with 3(2)[OF Inr] cascade_wellFormed[OF cb wf] lt rd all sc show ?thesis by simp
    qed
  qed
qed


lemma Set_ready_panics:
  "f < length (futures w) \<Longrightarrow> ready (futures w ! f) \<Longrightarrow> futureImpl_Set w f v e = Inl AlreadySet"
  by (simp add: futureImpl_Set.simps)

lemma Set_returns:
  assumes r: "futureImpl_Set w f v e = Inr w'"
  shows "f < length (futures w)" "\<not> ready (futures w ! f)" "cascade v e w w'"
    "fvalue (futures w' ! f) = v" "ferr (futures w' ! f) = e" "ready (futures w' ! f)"
    "ch_closed (channel (futures w' ! f))"
    "\<forall>h \<in> set (chained (futures w ! f)).
        h < length (futures w) \<and> h \<noteq> f \<and> \<not> ready (futures w ! h) \<and>
        fvalue (futures w' ! h) = v \<and> ferr (futures w' ! h) = e \<and>
        ready (futures w' ! h) \<and> ch_closed (channel (futures w' ! h))"
proof -
  from Set_cascade(1)[of w f v e] r
  show lt: "f < length (futures w)" and nr: "\<not> ready (futures w ! f)"
    and c: "cascade v e w w'" and rd: "ready (futures w' ! f)" by auto
  from c lt nr rd
  show "fvalue (futures w' ! f) = v" "ferr (futures w' ! f) = e"
    "ch_closed (channel (futures w' ! f))"
    by (auto simp: cascade_def)
  let ?w1 = "w\<lparr>futures := (futures w)
                  [f := (futures w ! f)\<lparr>fvalue := v, ferr := e, ready := True\<rparr>]\<rparr>"
  let ?w2 = "closeFutureChannel ?w1 f"
  note st = cascade_first_step[OF lt nr, where v = v and e = e]
  from r lt nr have sc: "setChained ?w2 f (chained (futures w ! f)) = Inr w'"
    by (simp add: futureImpl_Set.simps Let_def st(6))
  from Set_cascade(2)[of f ?w2 "chained (futures w ! f)"] sc st(2,3,4) lt
  have c2: "cascade v e ?w2 w'"
    and each: "\<forall>h \<in> set (chained (futures w ! f)).
                 h < length (futures ?w2) \<and> \<not> ready (futures ?w2 ! h) \<and> ready (futures w' ! h)"
    by auto
  show "\<forall>h \<in> set (chained (futures w ! f)).
        h < length (futures w) \<and> h \<noteq> f \<and> \<not> ready (futures w ! h) \<and>
        fvalue (futures w' ! h) = v \<and> ferr (futures w' ! h) = e \<and>
        ready (futures w' ! h) \<and> ch_closed (channel (futures w' ! h))"
  proof
    fix h assume "h \<in> set (chained (futures w ! f))"
    with each have h: "h < length (futures ?w2)" "\<not> ready (futures ?w2 ! h)" "ready (futures w' ! h)"
      by auto
    from h(1) have hl: "h < length (futures w)" by simp
    from h(2) st(2) have hf: "h \<noteq> f" by auto
    have hn: "\<not> ready (futures w ! h)"
    proof
      assume "ready (futures w ! h)"
      with st(1) hl have "futures ?w2 ! h = futures w ! h" unfolding cascade_def by blast
      with h(2) \<open>ready (futures w ! h)\<close> show False by simp
    qed
    from c2 h have "fvalue (futures w' ! h) = v \<and> ferr (futures w' ! h) = e \<and>
        ch_closed (channel (futures w' ! h))"
      unfolding cascade_def by blast
    with hl hf hn h(3)
    show "h < length (futures w) \<and> h \<noteq> f \<and> \<not> ready (futures w ! h) \<and>
        fvalue (futures w' ! h) = v \<and> ferr (futures w' ! h) = e \<and>
        ready (futures w' ! h) \<and> ch_closed (channel (futures w' ! h))" by simp
  qed
qed

lemma Set_chained_ready_panics:
  assumes wf: "wellFormed w" and lt: "f < length (futures w)"
    and h: "h \<in> set (chained (futures w ! f))" and rd: "ready (futures w ! h)"
  shows "futureImpl_Set w f v e = Inl AlreadySet"
proof (cases "futureImpl_Set w f v e")
  case (Inl p)
  with Set_only_AlreadySet(1)[of w f v e] wf lt show ?thesis by simp
next
  case (Inr w')
  from Set_returns(8)[OF Inr] h rd show ?thesis by blast
qed

text \<open>
  C6 (amended). \<open>Set\<close> on a future that is ready panics with "already set". A \<open>Set(v, e)\<close>
  that returns was the first one on its future; after it the future holds \<open>(v, e)\<close>, is
  ready, its channel is closed, and every future of its chained list is ready with the
  same \<open>(v, e)\<close>. It does not return when a future of the chained list is ready already:
  the cascade panics with "already set".
\<close>

theorem Set_stores_closes_and_cascades:
  "(f < length (futures w) \<and> ready (futures w ! f) \<longrightarrow>
      futureImpl_Set w f v e = Inl AlreadySet) \<and>
   (futureImpl_Set w f v e = Inr w' \<longrightarrow>
      \<not> ready (futures w ! f) \<and>
      fvalue (futures w' ! f) = v \<and> ferr (futures w' ! f) = e \<and> ready (futures w' ! f) \<and>
      ch_closed (channel (futures w' ! f)) \<and>
      (\<forall>h \<in> set (chained (futures w ! f)).
         fvalue (futures w' ! h) = v \<and> ferr (futures w' ! h) = e \<and> ready (futures w' ! h))) \<and>
   (wellFormed w \<and> f < length (futures w) \<and>
    (\<exists>h \<in> set (chained (futures w ! f)). ready (futures w ! h)) \<longrightarrow>
      futureImpl_Set w f v e = Inl AlreadySet)"
proof (intro conjI impI)
  assume "f < length (futures w) \<and> ready (futures w ! f)"
  then show "futureImpl_Set w f v e = Inl AlreadySet" by (simp add: Set_ready_panics)
next
  assume r: "futureImpl_Set w f v e = Inr w'"
  note Set_returns[OF r]
  then show "\<not> ready (futures w ! f)" "fvalue (futures w' ! f) = v" "ferr (futures w' ! f) = e"
    "ready (futures w' ! f)" "ch_closed (channel (futures w' ! f))"
    "\<forall>h \<in> set (chained (futures w ! f)).
         fvalue (futures w' ! h) = v \<and> ferr (futures w' ! h) = e \<and> ready (futures w' ! h)"
    by blast+
next
  assume "wellFormed w \<and> f < length (futures w) \<and>
    (\<exists>h \<in> set (chained (futures w ! f)). ready (futures w ! h))"
  then show "futureImpl_Set w f v e = Inl AlreadySet"
    using Set_chained_ready_panics by blast
qed

theorem Set_stores_closes_and_cascades_witness:
  "futureImpl_Set twoChained 0 (StrV ''x'') None = Inr twoChainedSet \<and>
   chained (futures twoChained ! 0) = [1, 2] \<and>
   fvalue (futures twoChainedSet ! 0) = StrV ''x'' \<and> ready (futures twoChainedSet ! 0) \<and>
   ch_closed (channel (futures twoChainedSet ! 0)) \<and>
   fvalue (futures twoChainedSet ! 1) = StrV ''x'' \<and> ready (futures twoChainedSet ! 1) \<and>
   fvalue (futures twoChainedSet ! 2) = StrV ''x'' \<and> ready (futures twoChainedSet ! 2) \<and>
   futureImpl_Set twoChainedSet 0 (IntV 1) None = Inl AlreadySet \<and>
   wellFormed chainedThenSet \<and> ready (futures chainedThenSet ! 1) \<and>
   futureImpl_Set chainedThenSet 0 (IntV 9) None = Inl AlreadySet"
proof -
  have r: "futureImpl_Set twoChained 0 (StrV ''x'') None = Inr twoChainedSet"
    by (simp add: future_defs)
  have ch: "chained (futures twoChained ! 0) = [1, 2]"
    by (simp add: future_defs)
  have rd: "0 < length (futures twoChainedSet) \<and> ready (futures twoChainedSet ! 0)"
    by (simp add: future_defs)
  have wf: "wellFormed chainedThenSet"
    by (simp add: wellFormed_def future_defs All_less_Suc)
  have h: "1 \<in> set (chained (futures chainedThenSet ! 0))"
    "0 < length (futures chainedThenSet)" "ready (futures chainedThenSet ! 1)"
    by (simp_all add: future_defs)
  have mem: "1 \<in> set (chained (futures twoChained ! 0))" "2 \<in> set (chained (futures twoChained ! 0))"
    using ch by simp_all
  note first = Set_stores_closes_and_cascades[of 0 twoChained "StrV ''x''" None twoChainedSet]
  note second = Set_stores_closes_and_cascades[of 0 twoChainedSet "IntV 1" None twoChainedSet]
  note third = Set_stores_closes_and_cascades[of 0 chainedThenSet "IntV 9" None chainedThenSet]
  from first r mem
  have "fvalue (futures twoChainedSet ! 0) = StrV ''x''" "ready (futures twoChainedSet ! 0)"
    "ch_closed (channel (futures twoChainedSet ! 0))"
    "fvalue (futures twoChainedSet ! 1) = StrV ''x''" "ready (futures twoChainedSet ! 1)"
    "fvalue (futures twoChainedSet ! 2) = StrV ''x''" "ready (futures twoChainedSet ! 2)"
    by blast+
  moreover from second rd
  have "futureImpl_Set twoChainedSet 0 (IntV 1) None = Inl AlreadySet" by blast
  moreover from third wf h
  have "futureImpl_Set chainedThenSet 0 (IntV 9) None = Inl AlreadySet" by blast
  ultimately show ?thesis
    using r ch wf h(3) by blast
qed

text \<open>
  The claim as it stands fails where \<open>f1\<close> is in the chained list of \<open>f0\<close> and was set
  before: the first \<open>Set\<close> on \<open>f0\<close> panics, and \<open>f1\<close> keeps its own value.
\<close>

theorem Set_cascade_meets_ready_future:
  "\<not> ready (futures chainedThenSet ! 0) \<and> chained (futures chainedThenSet ! 0) = [1] \<and>
   fvalue (futures chainedThenSet ! 1) = IntV 5 \<and>
   futureImpl_Set chainedThenSet 0 (IntV 9) None = Inl AlreadySet"
  by (simp add: future_defs)

text \<open>
  \<open>Set\<close> runs the statements of \<open>Set_entry\<close> and then its loop.
\<close>

lemma Set_from_entry:
  "futureImpl_Set w f v e =
     (if length (futures w) \<le> f then Inl NilDereference
      else if ready (futures w ! f) then Inl AlreadySet
      else setChained (Set_entry w f v e) f (chained (futures (Set_entry w f v e) ! f)))"
  by (simp add: futureImpl_Set.simps Set_entry_def Let_def)




text \<open>
  C5. \<open>f0.Chain(f1)\<close> with \<open>f1\<close> ready copies the value and the error and marks \<open>f0\<close>
  ready, but it does not close the channel of \<open>f0\<close> and does not set \<open>f2\<close>, which is
  chained to \<open>f0\<close>: \<open>GetAsync\<close> on \<open>f0\<close> still answers "not ready". \<open>f0.Set\<close> with the
  same value and error does both.
\<close>

theorem Chain_ready_is_not_Set:
  "\<not> ready (futures readyToChain ! 0) \<and> chained (futures readyToChain ! 0) = [2] \<and>
   ready (futures readyToChain ! 1) \<and>
   GetValueAndError readyToChain 1 = (StrV ''x'', None) \<and>
   Chain readyToChain 0 1 = Inr afterChain \<and>
   futureImpl_Set readyToChain 0 (StrV ''x'') None = Inr afterSet \<and>
   GetValueAndError afterChain 0 = (StrV ''x'', None) \<and>
   GetValueAndError afterSet 0 = (StrV ''x'', None) \<and>
   IsReady afterChain 0 \<and> IsReady afterSet 0 \<and>
   \<not> ch_closed (channel (futures afterChain ! 0)) \<and>
   ch_closed (channel (futures afterSet ! 0)) \<and>
   \<not> IsReady afterChain 2 \<and> IsReady afterSet 2 \<and>
   map_sum id fst (GetAsync afterChain 0 None) = Inr (Nil, False, None) \<and>
   map_sum id fst (GetAsync afterSet 0 None) = Inr (StrV ''x'', True, None)"
  by (simp add: future_defs GetAsync_def receiveAsyncImpl_def)

section \<open>Properties of the dispatcher\<close>

lemmas dispatcher_defs =
  emptyRuntime_def twoCoroutines_def oneCoroutine_def spawnsOnce_def secondPanics_def
  spawnsAndEnds_def runtimeAfter_def returned_def nowExecuting_def
  newNamedCoroutine_def newState_def call_def ExecuteUntilAllBlocked_def
  dispatcherImpl_Close_def exit_def IsDone_def Let_def

lemma exit_loop_length [simp]: "length (exit_loop ss cs) = length ss"
  by (induction cs arbitrary: ss) simp_all





lemma spawnAll_frame:
  "(\<exists>new. coroutines (dispatcher (spawnAll names r)) = coroutines (dispatcher r) @ new \<and>
          (\<forall>x \<in> set new. x < length (states (spawnAll names r)))) \<and>
   (\<exists>ss. states (spawnAll names r) = states r @ ss) \<and>
   sequence (dispatcher (spawnAll names r)) - int (length (states (spawnAll names r))) =
     sequence (dispatcher r) - int (length (states r)) \<and>
   executing (dispatcher (spawnAll names r)) = executing (dispatcher r) \<and>
   d_closed (dispatcher (spawnAll names r)) = d_closed (dispatcher r)"
proof (induction names arbitrary: r)
  case Nil
  show ?case by simp
next
  case (Cons name names)
  let ?r1 = "newNamedCoroutine r name"
  have st: "states ?r1 = states r @ [\<lparr>co_name = name, keptBlocked = False, co_closed = False, panicError = None\<rparr>]"
    and co: "coroutines (dispatcher ?r1) = coroutines (dispatcher r) @ [length (states r)]"
    and sq: "sequence (dispatcher ?r1) = sequence (dispatcher r) + 1"
    and ex: "executing (dispatcher ?r1) = executing (dispatcher r)"
    and cl: "d_closed (dispatcher ?r1) = d_closed (dispatcher r)"
    by (simp_all add: newNamedCoroutine_def newState_def Let_def)
  from Cons.IH[of ?r1] obtain new ss where
    n: "coroutines (dispatcher (spawnAll names ?r1)) = coroutines (dispatcher ?r1) @ new"
       "\<forall>x \<in> set new. x < length (states (spawnAll names ?r1))"
    and s: "states (spawnAll names ?r1) = states ?r1 @ ss"
    and rest: "sequence (dispatcher (spawnAll names ?r1)) - int (length (states (spawnAll names ?r1))) =
     sequence (dispatcher ?r1) - int (length (states ?r1))"
     "executing (dispatcher (spawnAll names ?r1)) = executing (dispatcher ?r1)"
     "d_closed (dispatcher (spawnAll names ?r1)) = d_closed (dispatcher ?r1)"
    by blast
  have "coroutines (dispatcher (spawnAll (name # names) r)) =
          coroutines (dispatcher r) @ (length (states r) # new) \<and>
        (\<forall>x \<in> set (length (states r) # new). x < length (states (spawnAll (name # names) r)))"
    using n s st co by auto
  then have "\<exists>new. coroutines (dispatcher (spawnAll (name # names) r)) =
          coroutines (dispatcher r) @ new \<and>
        (\<forall>x \<in> set new. x < length (states (spawnAll (name # names) r)))" by blast
  moreover have "\<exists>ss. states (spawnAll (name # names) r) = states r @ ss"
    using s st by simp
  ultimately show ?case using rest st sq ex cl by simp
qed

lemma call_frame:
  assumes "call code r c = Some r1" and "c < length (states r)"
  shows "\<exists>new. coroutines (dispatcher r1) = coroutines (dispatcher r) @ new \<and>
               (\<forall>x \<in> set new. x < length (states r1))"
    and "length (states r) \<le> length (states r1)"
    and "\<forall>k < length (states r). k \<noteq> c \<longrightarrow> states r1 ! k = states r ! k"
    and "sequence (dispatcher r1) - int (length (states r1)) =
         sequence (dispatcher r) - int (length (states r))"
    and "executing (dispatcher r1) = executing (dispatcher r)"
    and "d_closed (dispatcher r1) = d_closed (dispatcher r)"
proof -
  from assms(1) obtain s' spawned u' where
    c: "code c (states r ! c) (user r) = Some (s', spawned, u')"
    and r1: "r1 = spawnAll spawned (r\<lparr>states := (states r)[c := s'], user := u'\<rparr>)"
    by (auto simp: call_def split: option.splits)
  let ?r = "r\<lparr>states := (states r)[c := s'], user := u'\<rparr>"
  from spawnAll_frame[of spawned ?r] r1 obtain new ss where
    f: "coroutines (dispatcher r1) = coroutines (dispatcher ?r) @ new"
       "\<forall>x \<in> set new. x < length (states r1)"
       "states r1 = states ?r @ ss"
       "sequence (dispatcher r1) - int (length (states r1)) =
          sequence (dispatcher ?r) - int (length (states ?r))"
       "executing (dispatcher r1) = executing (dispatcher ?r)"
       "d_closed (dispatcher r1) = d_closed (dispatcher ?r)"
    by blast
  from f(1,2) show "\<exists>new. coroutines (dispatcher r1) = coroutines (dispatcher r) @ new \<and>
               (\<forall>x \<in> set new. x < length (states r1))" by simp
  from f(3) show "length (states r) \<le> length (states r1)" by simp
  from f(3) show "\<forall>k < length (states r). k \<noteq> c \<longrightarrow> states r1 ! k = states r ! k"
    by (simp add: nth_append)
  from f(4) show "sequence (dispatcher r1) - int (length (states r1)) =
         sequence (dispatcher r) - int (length (states r))" by simp
  from f(5) show "executing (dispatcher r1) = executing (dispatcher r)" by simp
  from f(6) show "d_closed (dispatcher r1) = d_closed (dispatcher r)" by simp
qed


lemma pass_loop_inv:
  assumes "pass_loop n code r i ab = Some (res, r')"
    and "validPointers r"
    and "ab \<longrightarrow> (\<forall>k < i. k < length (coroutines (dispatcher r)) \<longrightarrow>
            \<not> co_closed (states r ! (coroutines (dispatcher r) ! k)) \<and>
            keptBlocked (states r ! (coroutines (dispatcher r) ! k)))"
  shows "validPointers r' \<and> passResult r' res \<and>
         sequence (dispatcher r') - int (length (states r')) =
           sequence (dispatcher r) - int (length (states r)) \<and>
         executing (dispatcher r') = executing (dispatcher r) \<and>
         d_closed (dispatcher r') = d_closed (dispatcher r)"
  using assms
proof (induction n arbitrary: r i ab)
  case 0
  then show ?case by simp
next
  case (Suc n)
  let ?cs = "coroutines (dispatcher r)"
  show ?case
  proof (cases "i < length ?cs")
    case False
    with Suc.prems(1) have res: "res = PassDone ab" "r' = r" by simp_all
    have "ab \<longrightarrow> allKeptBlocked r"
      unfolding allKeptBlocked_def
    proof (intro impI ballI)
      fix c assume ab and "c \<in> set ?cs"
      then obtain k where "k < length ?cs" "?cs ! k = c" by (auto simp: in_set_conv_nth)
      with Suc.prems(3) \<open>ab\<close> False
      show "\<not> co_closed (states r ! c) \<and> keptBlocked (states r ! c)" by auto
    qed
    with res Suc.prems(2) show ?thesis by (simp add: passResult_def)
  next
    case True
    let ?c = "?cs ! i"
    from True Suc.prems(2) have clt: "?c < length (states r)"
      by (simp add: validPointers_def)
    obtain r1 where r1: "(if \<not> co_closed (states r ! ?c) then call code r ?c else Some r) = Some r1"
      using Suc.prems(1) True by (auto simp: Let_def split: option.splits)
    have frame: "(\<exists>new. coroutines (dispatcher r1) = ?cs @ new \<and>
                        (\<forall>x \<in> set new. x < length (states r1))) \<and>
                 length (states r) \<le> length (states r1) \<and>
                 (\<forall>k < length (states r). k \<noteq> ?c \<longrightarrow> states r1 ! k = states r ! k) \<and>
                 sequence (dispatcher r1) - int (length (states r1)) =
                   sequence (dispatcher r) - int (length (states r)) \<and>
                 executing (dispatcher r1) = executing (dispatcher r) \<and>
                 d_closed (dispatcher r1) = d_closed (dispatcher r)"
    proof (cases "co_closed (states r ! ?c)")
      case True
      with r1 show ?thesis by simp
    next
      case False
      with r1 have "call code r ?c = Some r1" by simp
      from call_frame[OF this clt] show ?thesis by blast
    qed
    then obtain new where new: "coroutines (dispatcher r1) = ?cs @ new"
      "\<forall>x \<in> set new. x < length (states r1)" by blast
    have vp1: "validPointers r1"
      using Suc.prems(2) new frame by (auto simp: validPointers_def)
    have ci: "coroutines (dispatcher r1) ! i = ?c"
      using new True by (simp add: nth_append)
    show ?thesis
    proof (cases "co_closed (states r1 ! ?c)")
      case closed: True
      let ?r2 = "r1\<lparr>dispatcher := (dispatcher r1)
                   \<lparr>coroutines := take i (coroutines (dispatcher r1)) @
                                  drop (Suc i) (coroutines (dispatcher r1))\<rparr>\<rparr>"
      have vp2: "validPointers ?r2"
        using vp1 by (auto simp: validPointers_def dest: in_set_takeD in_set_dropD)
      show ?thesis
      proof (cases "panicError (states r1 ! ?c)")
        case (Some p)
        with Suc.prems(1) True r1 closed have "res = PanicFound p" "r' = ?r2"
          by (auto simp: Let_def split: if_splits)
        moreover have "?c < length (states r1)" using clt frame by simp
        ultimately show ?thesis
          using vp2 closed Some frame by (auto simp: passResult_def)
      next
        case None
        with Suc.prems(1) True r1 closed
        have rec: "pass_loop n code ?r2 i False = Some (res, r')"
          by (auto simp: Let_def split: if_splits)
        from Suc.IH[OF rec vp2] frame show ?thesis by simp
      qed
    next
      case live: False
      let ?ab = "ab \<and> (keptBlocked (states r1 ! ?c) \<or> co_closed (states r1 ! ?c))"
      from Suc.prems(1) True r1 live
      have rec: "pass_loop n code r1 (Suc i) ?ab = Some (res, r')"
        by (auto simp: Let_def split: if_splits)
      have pre: "?ab \<longrightarrow> (\<forall>k < Suc i. k < length (coroutines (dispatcher r1)) \<longrightarrow>
            \<not> co_closed (states r1 ! (coroutines (dispatcher r1) ! k)) \<and>
            keptBlocked (states r1 ! (coroutines (dispatcher r1) ! k)))"
      proof (intro impI allI)
        fix k assume ab: ?ab and k: "k < Suc i" "k < length (coroutines (dispatcher r1))"
        show "\<not> co_closed (states r1 ! (coroutines (dispatcher r1) ! k)) \<and>
            keptBlocked (states r1 ! (coroutines (dispatcher r1) ! k))"
        proof (cases "coroutines (dispatcher r1) ! k = ?c")
          case True
          with ab live show ?thesis by simp
        next
          case False
          with ci k have ki: "k < i" by (cases "k = i") auto
          with True have kl: "k < length ?cs" by simp
          then have same: "coroutines (dispatcher r1) ! k = ?cs ! k"
            using new by (simp add: nth_append)
          from kl Suc.prems(2) have "?cs ! k < length (states r)"
            by (simp add: validPointers_def)
          with frame False same have "states r1 ! (?cs ! k) = states r ! (?cs ! k)" by simp
          with Suc.prems(3) ab ki kl same show ?thesis by simp
        qed
      qed
      from Suc.IH[OF rec vp1 pre] frame show ?thesis by simp
    qed
  qed
qed


lemma blocked_loop_inv:
  assumes "blocked_loop n code r = Some (err, r')" and "validPointers r"
  shows "executing (dispatcher r') = executing (dispatcher r) \<and>
         (err = None \<longrightarrow>
            coroutines (dispatcher r') = [] \<or>
            allKeptBlocked r' \<and>
            (\<exists>r0. finalPass code r0 r' \<and>
                  sequence (dispatcher r0) = sequence (dispatcher r') \<and>
                  length (states r0) = length (states r'))) \<and>
         (\<forall>p. err = Some p \<longrightarrow>
            (\<exists>c < length (states r').
               co_closed (states r' ! c) \<and> panicError (states r' ! c) = Some p))"
  using assms
proof (induction n arbitrary: r)
  case 0
  then show ?case by simp
next
  case (Suc n)
  from Suc.prems(1) obtain res r1 where
    p: "pass_loop (Suc n) code r 0 True = Some (res, r1)"
    by (auto simp: Let_def split: option.splits)
  from pass_loop_inv[OF p Suc.prems(2)]
  have vp: "validPointers r1" and pr: "passResult r1 res"
    and delta: "sequence (dispatcher r1) - int (length (states r1)) =
                sequence (dispatcher r) - int (length (states r))"
    and ex: "executing (dispatcher r1) = executing (dispatcher r)"
    by simp_all
  show ?case
  proof (cases res)
    case (PanicFound q)
    with Suc.prems(1) p have "err = Some q" "r' = r1" by (simp_all add: Let_def)
    with pr PanicFound ex show ?thesis by (simp add: passResult_def)
  next
    case (PassDone ab)
    show ?thesis
    proof (cases "length (coroutines (dispatcher r1)) = 0")
      case True
      with Suc.prems(1) p PassDone have "err = None" "r' = r1" by (simp_all add: Let_def)
      with True ex show ?thesis by simp
    next
      case False
      show ?thesis
      proof (cases "ab \<and> sequence (dispatcher r) = sequence (dispatcher r1)")
        case True
        with Suc.prems(1) p PassDone False have e: "err = None" "r' = r1"
          by (simp_all add: Let_def)
        from True pr PassDone have "allKeptBlocked r1" by (simp add: passResult_def)
        moreover have "finalPass code r r1"
          unfolding finalPass_def
        proof (rule exI[of _ "Suc n"])
          show "pass_loop (Suc n) code r 0 True = Some (PassDone True, r1)"
            using p PassDone True by (simp del: pass_loop.simps)
        qed
        moreover from delta True have "length (states r) = length (states r1)" by simp
        ultimately show ?thesis using e ex True by auto
      next
        case stay: False
        with Suc.prems(1) p PassDone False have "blocked_loop n code r1 = Some (err, r')"
          by (auto simp: Let_def)
        from Suc.IH[OF this vp] ex show ?thesis by simp
      qed
    qed
  qed
qed

lemma spawnAll_exact:
  "coroutines (dispatcher (spawnAll names r)) =
     coroutines (dispatcher r) @ [length (states r) ..< length (states r) + length names] \<and>
   length (states (spawnAll names r)) = length (states r) + length names"
proof (induction names arbitrary: r)
  case Nil
  show ?case by simp
next
  case (Cons name names)
  let ?r1 = "newNamedCoroutine r name"
  have st: "length (states ?r1) = Suc (length (states r))"
    and co: "coroutines (dispatcher ?r1) = coroutines (dispatcher r) @ [length (states r)]"
    by (simp_all add: newNamedCoroutine_def newState_def Let_def)
  have up: "[length (states r) ..< length (states r) + length (name # names)] =
            length (states r) # [length (states ?r1) ..< length (states ?r1) + length names]"
    by (simp add: upt_conv_Cons st del: upt_Suc)
  from Cons.IH[of ?r1] have
    a: "coroutines (dispatcher (spawnAll names ?r1)) =
          coroutines (dispatcher ?r1) @ [length (states ?r1) ..< length (states ?r1) + length names]"
    and b: "length (states (spawnAll names ?r1)) = length (states ?r1) + length names"
    by blast+
  have "coroutines (dispatcher (spawnAll (name # names) r)) =
     coroutines (dispatcher r) @ [length (states r) ..< length (states r) + length (name # names)]"
    unfolding up by (simp add: a co)
  moreover have "length (states (spawnAll (name # names) r)) =
     length (states r) + length (name # names)"
    by (simp add: b st)
  ultimately show ?case by blast
qed

lemma call_exact:
  assumes "call code r c = Some r1" and "c < length (states r)"
  shows "coroutines (dispatcher r1) =
           coroutines (dispatcher r) @ [length (states r) ..< length (states r1)]"
    and "length (states r) \<le> length (states r1)"
proof -
  from assms(1) obtain s' spawned u' where
    r1: "r1 = spawnAll spawned (r\<lparr>states := (states r)[c := s'], user := u'\<rparr>)"
    by (auto simp: call_def split: option.splits)
  from spawnAll_exact[of spawned "r\<lparr>states := (states r)[c := s'], user := u'\<rparr>"] r1
  show "coroutines (dispatcher r1) =
           coroutines (dispatcher r) @ [length (states r) ..< length (states r1)]"
    and "length (states r) \<le> length (states r1)"
    by simp_all
qed

lemma tracked_call:
  assumes t: "tracked r0 r" and c: "c \<in> set (coroutines (dispatcher r))"
    and r1: "call code r c = Some r1"
  shows "tracked r0 r1"
proof -
  from t c have clt: "c < length (states r)" by (simp add: tracked_def validPointers_def)
  note ex = call_exact[OF r1 clt]
  note fr = call_frame[OF r1 clt]
  from t have vp: "validPointers r" and di: "distinct (coroutines (dispatcher r))"
    and le: "length (states r0) \<le> length (states r)"
    and un: "\<forall>c \<in> set (coroutines (dispatcher r)).
               c \<in> set (coroutines (dispatcher r0)) \<or> length (states r0) \<le> c"
    and none: "\<forall>c. retired r0 r c \<longrightarrow> panicError (states r ! c) = None"
    by (simp_all add: tracked_def)
  have un1: "\<forall>c \<in> set (coroutines (dispatcher r1)).
               c \<in> set (coroutines (dispatcher r0)) \<or> length (states r0) \<le> c"
    using un le ex(1) by auto
  have vp1: "validPointers r1"
    using vp ex by (auto simp: validPointers_def)
  have di1: "distinct (coroutines (dispatcher r1))"
    using di vp ex(1) by (auto simp: validPointers_def)
  have "\<forall>d. retired r0 r1 d \<longrightarrow> panicError (states r1 ! d) = None"
  proof (intro allI impI)
    fix d assume d: "retired r0 r1 d"
    then have dn: "d \<notin> set (coroutines (dispatcher r1))" and dl: "d < length (states r1)"
      and du: "d \<in> set (coroutines (dispatcher r0)) \<or> length (states r0) \<le> d"
      by (simp_all add: retired_def)
    from dn ex(1) dl have dlt: "d < length (states r)" by (cases "d < length (states r)") auto
    from dn ex(1) have "d \<notin> set (coroutines (dispatcher r))" by simp
    with dlt du have "retired r0 r d" by (simp add: retired_def)
    with none have "panicError (states r ! d) = None" by blast
    moreover from dn ex(1) c have "d \<noteq> c" by auto
    ultimately show "panicError (states r1 ! d) = None" using fr(3) dlt by simp
  qed
  with vp1 di1 le ex(2) un1 show ?thesis by (simp add: tracked_def)
qed

lemma tracked_remove:
  assumes t: "tracked r0 r" and i: "i < length (coroutines (dispatcher r))"
  defines "r2 \<equiv> r\<lparr>dispatcher := (dispatcher r)
                   \<lparr>coroutines := take i (coroutines (dispatcher r)) @
                                  drop (Suc i) (coroutines (dispatcher r))\<rparr>\<rparr>"
  shows "coroutines (dispatcher r) ! i \<notin> set (coroutines (dispatcher r2))"
    and "\<forall>d. retired r0 r2 d \<and> d \<noteq> coroutines (dispatcher r) ! i \<longrightarrow>
             panicError (states r2 ! d) = None"
    and "panicError (states r ! (coroutines (dispatcher r) ! i)) = None \<Longrightarrow> tracked r0 r2"
    and "retired r0 r2 (coroutines (dispatcher r) ! i)"
proof -
  let ?cs = "coroutines (dispatcher r)"
  let ?c = "?cs ! i"
  from t have vp: "validPointers r" and di: "distinct ?cs"
    and le: "length (states r0) \<le> length (states r)"
    and un: "\<forall>c \<in> set ?cs. c \<in> set (coroutines (dispatcher r0)) \<or> length (states r0) \<le> c"
    and none: "\<forall>c. retired r0 r c \<longrightarrow> panicError (states r ! c) = None"
    by (simp_all add: tracked_def)
  have cs2: "coroutines (dispatcher r2) = take i ?cs @ drop (Suc i) ?cs"
    and st2: "states r2 = states r"
    by (simp_all add: r2_def)
  have split: "?cs = take i ?cs @ ?c # drop (Suc i) ?cs"
    using i by (simp add: id_take_nth_drop)
  from di split have notin: "?c \<notin> set (take i ?cs @ drop (Suc i) ?cs)"
    by (metis distinct_append distinct.simps(2) disjoint_insert(1) list.simps(15) set_append Un_iff)
  then show "?c \<notin> set (coroutines (dispatcher r2))" by (simp add: cs2)
  have sub: "set (coroutines (dispatcher r2)) \<union> {?c} = set ?cs"
    using split by (metis Un_insert_right cs2 list.simps(15) set_append sup_bot.right_neutral Un_commute insert_is_Un Un_assoc)
  show other: "\<forall>d. retired r0 r2 d \<and> d \<noteq> ?c \<longrightarrow> panicError (states r2 ! d) = None"
  proof (intro allI impI)
    fix d assume d: "retired r0 r2 d \<and> d \<noteq> ?c"
    with sub have "d \<notin> set ?cs" by (auto simp: retired_def)
    with d have "retired r0 r d" by (simp add: retired_def st2)
    with none show "panicError (states r2 ! d) = None" by (simp add: st2)
  qed
  have vp2: "validPointers r2" using vp
    by (auto simp: validPointers_def cs2 st2 dest: in_set_takeD in_set_dropD)
  have di2: "distinct (coroutines (dispatcher r2))"
    using di split by (metis cs2 distinct_append distinct.simps(2) disjoint_insert(1) list.simps(15))
  have un2: "\<forall>c \<in> set (coroutines (dispatcher r2)).
               c \<in> set (coroutines (dispatcher r0)) \<or> length (states r0) \<le> c"
    using un sub by blast
  show "panicError (states r ! ?c) = None \<Longrightarrow> tracked r0 r2"
    using vp2 di2 le other un2 by (auto simp: tracked_def st2)
  from vp i have "?c < length (states r)" by (simp add: validPointers_def)
  moreover from un i have "?c \<in> set (coroutines (dispatcher r0)) \<or> length (states r0) \<le> ?c"
    by simp
  ultimately show "retired r0 r2 ?c"
    using notin by (simp add: retired_def cs2 st2)
qed

lemma pass_loop_first_panic:
  assumes "pass_loop n code r i ab = Some (res, r')" and "tracked r0 r"
  shows "case res of PassDone b \<Rightarrow> tracked r0 r' | PanicFound p \<Rightarrow> firstPanic r0 r' p"
  using assms
proof (induction n arbitrary: r i ab)
  case 0
  then show ?case by simp
next
  case (Suc n)
  let ?cs = "coroutines (dispatcher r)"
  show ?case
  proof (cases "i < length ?cs")
    case False
    with Suc.prems show ?thesis by auto
  next
    case True
    let ?c = "?cs ! i"
    from True have cin: "?c \<in> set ?cs" by simp
    from Suc.prems(2) cin have clt: "?c < length (states r)"
      by (simp add: tracked_def validPointers_def)
    obtain r1 where r1: "(if \<not> co_closed (states r ! ?c) then call code r ?c else Some r) = Some r1"
      using Suc.prems(1) True by (auto simp: Let_def split: option.splits)
    have t1: "tracked r0 r1" and ci: "coroutines (dispatcher r1) ! i = ?c"
      and il: "i < length (coroutines (dispatcher r1))"
    proof -
      show "tracked r0 r1"
      proof (cases "co_closed (states r ! ?c)")
        case True
        with r1 Suc.prems(2) show ?thesis by simp
      next
        case False
        with r1 have "call code r ?c = Some r1" by simp
        from tracked_call[OF Suc.prems(2) cin this] show ?thesis .
      qed
      show "coroutines (dispatcher r1) ! i = ?c" "i < length (coroutines (dispatcher r1))"
      proof -
        have "\<exists>new. coroutines (dispatcher r1) = ?cs @ new"
        proof (cases "co_closed (states r ! ?c)")
          case True
          with r1 show ?thesis by simp
        next
          case False
          with r1 have "call code r ?c = Some r1" by simp
          from call_exact(1)[OF this clt] show ?thesis by blast
        qed
        then show "coroutines (dispatcher r1) ! i = ?c" "i < length (coroutines (dispatcher r1))"
          using True by (auto simp: nth_append)
      qed
    qed
    show ?thesis
    proof (cases "co_closed (states r1 ! ?c)")
      case closed: True
      let ?r2 = "r1\<lparr>dispatcher := (dispatcher r1)
                   \<lparr>coroutines := take i (coroutines (dispatcher r1)) @
                                  drop (Suc i) (coroutines (dispatcher r1))\<rparr>\<rparr>"
      note rm = tracked_remove[OF t1 il, unfolded ci]
      show ?thesis
      proof (cases "panicError (states r1 ! ?c)")
        case (Some p)
        with Suc.prems(1) True r1 closed have res: "res = PanicFound p" "r' = ?r2"
          by (auto simp: Let_def split: if_splits)
        have "firstPanic r0 ?r2 p"
          unfolding firstPanic_def
          by (rule exI[of _ ?c]) (use rm(2,4) closed Some in simp)
        with res show ?thesis by simp
      next
        case None
        with Suc.prems(1) True r1 closed
        have rec: "pass_loop n code ?r2 i False = Some (res, r')"
          by (auto simp: Let_def split: if_splits)
        from Suc.IH[OF rec rm(3)[OF None]] show ?thesis .
      qed
    next
      case live: False
      from Suc.prems(1) True r1 live obtain b where
        rec: "pass_loop n code r1 (Suc i) b = Some (res, r')"
        by (auto simp: Let_def split: if_splits)
      from Suc.IH[OF rec t1] show ?thesis .
    qed
  qed
qed

lemma blocked_loop_first_panic:
  assumes "blocked_loop n code r = Some (err, r')" and "tracked r0 r"
  shows "case err of None \<Rightarrow> tracked r0 r' | Some p \<Rightarrow> firstPanic r0 r' p"
  using assms
proof (induction n arbitrary: r)
  case 0
  then show ?case by simp
next
  case (Suc n)
  from Suc.prems(1) obtain res r1 where
    p: "pass_loop (Suc n) code r 0 True = Some (res, r1)"
    by (auto simp: Let_def split: option.splits)
  note fp = pass_loop_first_panic[OF p Suc.prems(2)]
  show ?case
  proof (cases res)
    case (PanicFound q)
    with Suc.prems(1) p have "err = Some q" "r' = r1" by (simp_all add: Let_def)
    with fp PanicFound show ?thesis by simp
  next
    case (PassDone ab)
    with fp have t1: "tracked r0 r1" by simp
    show ?thesis
    proof (cases "length (coroutines (dispatcher r1)) = 0 \<or>
                  (ab \<and> sequence (dispatcher r) = sequence (dispatcher r1))")
      case True
      with Suc.prems(1) p PassDone have "err = None" "r' = r1"
        by (auto simp: Let_def split: if_splits)
      with t1 show ?thesis by simp
    next
      case False
      with Suc.prems(1) p PassDone have "blocked_loop n code r1 = Some (err, r')"
        by (auto simp: Let_def split: if_splits)
      from Suc.IH[OF this t1] show ?thesis .
    qed
  qed
qed

lemma ExecuteUntilAllBlocked_first_panic:
  assumes vp: "validPointers r" and di: "distinct (coroutines (dispatcher r))"
    and run: "ExecuteUntilAllBlocked n code r = Some (Inr (err, r'))"
  shows "(err = None \<longrightarrow> (\<forall>c. retired r r' c \<longrightarrow> panicError (states r' ! c) = None)) \<and>
         (\<forall>p. err = Some p \<longrightarrow> firstPanic r r' p)"
proof -
  let ?r = "r\<lparr>dispatcher := (dispatcher r)\<lparr>executing := True\<rparr>\<rparr>"
  from run obtain r1 where
    b: "blocked_loop n code ?r = Some (err, r1)"
    and r': "r' = r1\<lparr>dispatcher := (dispatcher r1)\<lparr>executing := False\<rparr>\<rparr>"
    by (auto simp: ExecuteUntilAllBlocked_def split: if_splits option.splits)
  have t: "tracked r ?r" using vp di
    by (auto simp: tracked_def validPointers_def retired_def)
  have same: "retired r r' = retired r r1" "states r' = states r1"
    by (auto simp: r' retired_def fun_eq_iff)
  note fp = blocked_loop_first_panic[OF b t]
  show ?thesis
  proof (cases err)
    case None
    with fp show ?thesis by (simp add: tracked_def same)
  next
    case (Some p)
    with fp show ?thesis by (simp add: firstPanic_def same)
  qed
qed

lemma executing_reset:
  fixes r :: "'u runtime"
  shows "executing (dispatcher r) \<Longrightarrow>
   (r\<lparr>dispatcher := (dispatcher r)\<lparr>executing := False\<rparr>\<rparr>)
     \<lparr>dispatcher := (dispatcher (r\<lparr>dispatcher := (dispatcher r)\<lparr>executing := False\<rparr>\<rparr>))
                      \<lparr>executing := True\<rparr>\<rparr> = r"
  by (cases r, cases "dispatcher r") simp

text \<open>
  C2 (amended). When \<open>ExecuteUntilAllBlocked\<close> returns \<open>nil\<close>, either no coroutine is left
  in the list, or every coroutine of the list is live with \<open>keptBlocked = true\<close> and the
  last pass over the list ended with \<open>allBlocked\<close>, left \<open>sequence\<close> as it found it and
  allocated no coroutine state. When it returns a panic, that is the captured panic of
  a closed coroutine. When the list holds each coroutine once, the panic returned is the
  first one captured: it is that of a coroutine taken out of the list, no other coroutine
  taken out of the list has one, and \<open>nil\<close> is returned only when none of them has one.
\<close>

theorem ExecuteUntilAllBlocked_returns:
  assumes "validPointers r"
    and "ExecuteUntilAllBlocked n code r = Some (Inr (err, r'))"
  shows "(err = None \<longrightarrow>
            coroutines (dispatcher r') = [] \<or>
            allKeptBlocked r' \<and>
            (\<exists>r0. finalPass code r0 (r'\<lparr>dispatcher := (dispatcher r')\<lparr>executing := True\<rparr>\<rparr>) \<and>
                  sequence (dispatcher r0) = sequence (dispatcher r') \<and>
                  length (states r0) = length (states r'))) \<and>
         (\<forall>p. err = Some p \<longrightarrow>
            (\<exists>c < length (states r').
               co_closed (states r' ! c) \<and> panicError (states r' ! c) = Some p)) \<and>
         (distinct (coroutines (dispatcher r)) \<longrightarrow>
            (err = None \<longrightarrow> (\<forall>c. retired r r' c \<longrightarrow> panicError (states r' ! c) = None)) \<and>
            (\<forall>p. err = Some p \<longrightarrow> firstPanic r r' p))"
proof -
  let ?r = "r\<lparr>dispatcher := (dispatcher r)\<lparr>executing := True\<rparr>\<rparr>"
  note first = ExecuteUntilAllBlocked_first_panic[OF assms(1) _ assms(2)]
  from assms(2) obtain r1 where
    b: "blocked_loop n code ?r = Some (err, r1)"
    and r': "r' = r1\<lparr>dispatcher := (dispatcher r1)\<lparr>executing := False\<rparr>\<rparr>"
    by (auto simp: ExecuteUntilAllBlocked_def split: if_splits option.splits)
  have vp: "validPointers ?r" using assms(1) by (simp add: validPointers_def)
  note inv = blocked_loop_inv[OF b vp]
  from inv have ex: "executing (dispatcher r1)" by simp
  have undo: "r'\<lparr>dispatcher := (dispatcher r')\<lparr>executing := True\<rparr>\<rparr> = r1"
    unfolding r' using executing_reset[OF ex] .
  have same: "coroutines (dispatcher r') = coroutines (dispatcher r1)"
    "states r' = states r1" "sequence (dispatcher r') = sequence (dispatcher r1)"
    "allKeptBlocked r' = allKeptBlocked r1"
    by (simp_all add: r' allKeptBlocked_def)
  from inv have
    "(err = None \<longrightarrow>
        coroutines (dispatcher r') = [] \<or>
        allKeptBlocked r' \<and>
        (\<exists>r0. finalPass code r0 (r'\<lparr>dispatcher := (dispatcher r')\<lparr>executing := True\<rparr>\<rparr>) \<and>
              sequence (dispatcher r0) = sequence (dispatcher r') \<and>
              length (states r0) = length (states r'))) \<and>
     (\<forall>p. err = Some p \<longrightarrow>
        (\<exists>c < length (states r').
           co_closed (states r' ! c) \<and> panicError (states r' ! c) = Some p))"
    unfolding undo same by blast
  with first show ?thesis by blast
qed

theorem ExecuteUntilAllBlocked_returns_witness:
  "validPointers twoCoroutines \<and>
   returned (ExecuteUntilAllBlocked 5 spawnsOnce twoCoroutines) = Some (Inr None) \<and>
   coroutines (dispatcher (runtimeAfter (ExecuteUntilAllBlocked 5 spawnsOnce twoCoroutines))) = [0, 2] \<and>
   allKeptBlocked (runtimeAfter (ExecuteUntilAllBlocked 5 spawnsOnce twoCoroutines)) \<and>
   returned (ExecuteUntilAllBlocked 5 secondPanics twoCoroutines) = Some (Inr (Some ''Closed channel'')) \<and>
   co_closed (states (runtimeAfter (ExecuteUntilAllBlocked 5 secondPanics twoCoroutines)) ! 1) \<and>
   panicError (states (runtimeAfter (ExecuteUntilAllBlocked 5 secondPanics twoCoroutines)) ! 1) =
     Some ''Closed channel'' \<and>
   distinct (coroutines (dispatcher twoCoroutines)) \<and>
   firstPanic twoCoroutines (runtimeAfter (ExecuteUntilAllBlocked 5 secondPanics twoCoroutines))
     ''Closed channel''"
proof -
  let ?R = "runtimeAfter (ExecuteUntilAllBlocked 5 spawnsOnce twoCoroutines)"
  have vp: "validPointers twoCoroutines"
    by (simp add: validPointers_def dispatcher_defs)
  have run: "ExecuteUntilAllBlocked 5 spawnsOnce twoCoroutines = Some (Inr (None, ?R))"
    by (simp add: dispatcher_defs numeral_eq_Suc)
  have cs: "coroutines (dispatcher ?R) = [0, 2]"
    by (simp add: dispatcher_defs numeral_eq_Suc)
  from ExecuteUntilAllBlocked_returns[OF vp run] cs
  have kept: "allKeptBlocked ?R" by simp
  let ?P = "runtimeAfter (ExecuteUntilAllBlocked 5 secondPanics twoCoroutines)"
  have p: "co_closed (states ?P ! 1)" "panicError (states ?P ! 1) = Some ''Closed channel''"
    by (simp_all add: dispatcher_defs numeral_eq_Suc)
  have ret: "returned (ExecuteUntilAllBlocked 5 spawnsOnce twoCoroutines) = Some (Inr None)"
    "returned (ExecuteUntilAllBlocked 5 secondPanics twoCoroutines) =
       Some (Inr (Some ''Closed channel''))"
    by (simp_all add: dispatcher_defs numeral_eq_Suc)
  have di: "distinct (coroutines (dispatcher twoCoroutines))"
    by (simp add: dispatcher_defs)
  have runP: "ExecuteUntilAllBlocked 5 secondPanics twoCoroutines =
                Some (Inr (Some ''Closed channel'', ?P))"
    by (simp add: dispatcher_defs numeral_eq_Suc)
  from ExecuteUntilAllBlocked_returns[OF vp runP] di
  have fp: "firstPanic twoCoroutines ?P ''Closed channel''" by blast
  from vp kept cs p ret di fp show ?thesis by blast
qed

text \<open>
  The claim as it stands fails in two ways. With \<open>secondPanics\<close> the function returns the
  panic of coroutine 1 while coroutine 0 is live and has \<open>keptBlocked = false\<close>. With
  \<open>spawnsAndEnds\<close> it returns \<open>nil\<close> after a single pass in which a coroutine was created
  (\<open>sequence\<close> went from 1 to 2), because the list is empty at the end of that pass.
\<close>

theorem returns_without_all_blocked:
  "returned (ExecuteUntilAllBlocked 5 secondPanics twoCoroutines) = Some (Inr (Some ''Closed channel'')) \<and>
   coroutines (dispatcher (runtimeAfter (ExecuteUntilAllBlocked 5 secondPanics twoCoroutines))) = [0] \<and>
   \<not> co_closed (states (runtimeAfter (ExecuteUntilAllBlocked 5 secondPanics twoCoroutines)) ! 0) \<and>
   \<not> keptBlocked (states (runtimeAfter (ExecuteUntilAllBlocked 5 secondPanics twoCoroutines)) ! 0) \<and>
   returned (ExecuteUntilAllBlocked 5 spawnsAndEnds oneCoroutine) = Some (Inr None) \<and>
   blocked_loop 5 spawnsAndEnds (nowExecuting oneCoroutine) =
     map_option (\<lambda>x. (None, snd x)) (pass_loop 5 spawnsAndEnds (nowExecuting oneCoroutine) 0 True) \<and>
   map_option fst (pass_loop 5 spawnsAndEnds (nowExecuting oneCoroutine) 0 True) = Some (PassDone False) \<and>
   sequence (dispatcher oneCoroutine) = 1 \<and>
   length (states oneCoroutine) = 1 \<and>
   sequence (dispatcher (runtimeAfter (ExecuteUntilAllBlocked 5 spawnsAndEnds oneCoroutine))) = 2 \<and>
   length (states (runtimeAfter (ExecuteUntilAllBlocked 5 spawnsAndEnds oneCoroutine))) = 2"
  by (simp add: dispatcher_defs numeral_eq_Suc)

section \<open>Properties of the selector\<close>

lemmas selector_defs =
  receiveOrDefault_def thirdReady_def sendClosedReceiveReady_def receiveThenSendSame_def
  chainedReadyOrDefault_def chainedReadyOnly_def defaultTaken_def
  selected_def worldAfter_def AddDefault_def AddReceive_def AddSend_def AddFuture_def
  NewNamedSelector_def newFuture_def
  Select_def Select_enter_def select_case_def Select_loop_def readyAtCall_def passedAtCall_def
  scenario_defs

lemmas ready_defs =
  caseReady_def sendOnClosed_def fired_def firstOffered_def senderWaits_def receiverWaits_def
  isReceiveCase_def isSendCase_def isFutureCase_def futureSignalled_def futureChannelsQuiet_def
  noSelfRendezvous_def handler_def IsReady_def

lemma callReceiveCallback_refuses:
  "fst (callReceiveCallback w cb v m) = (\<not> receiveRefuses w cb)"
  "receiveRefuses w cb \<Longrightarrow> callReceiveCallback w cb v m = (False, w)"
  by (cases cb; simp)+

lemma callSendCallback_refuses:
  "fst (callSendCallback w cb) = (\<not> sendRefuses w cb)"
  "sendRefuses w cb \<Longrightarrow> callSendCallback w cb = (False, w)"
  by (cases cb; simp)+

lemma receiveRefuses_cong:
  "readyBranch w = readyBranch w' \<Longrightarrow> receiveRefuses w cb = receiveRefuses w' cb"
  by (cases cb) simp_all

lemma sendRefuses_cong:
  "readyBranch w = readyBranch w' \<Longrightarrow> sendRefuses w cb = sendRefuses w' cb"
  by (cases cb) simp_all

lemma drain_all_refuse:
  "\<forall>b \<in> set bs. sendRefuses w (pair_callback b) \<Longrightarrow> drainBlockedSends w bs = (None, [], w)"
  by (induction bs) (simp_all add: callSendCallback_refuses)

lemma drain_None:
  "fst (drainBlockedSends w bs) = None \<Longrightarrow> \<forall>b \<in> set bs. sendRefuses w (pair_callback b)"
proof (induction bs)
  case Nil
  then show ?case by simp
next
  case (Cons b bs)
  show ?case
  proof (cases "sendRefuses w (pair_callback b)")
    case True
    with Cons show ?thesis by (simp add: callSendCallback_refuses)
  next
    case False
    then obtain w1 where "callSendCallback w (pair_callback b) = (True, w1)"
      by (cases "callSendCallback w (pair_callback b)") (simp add: callSendCallback_refuses(1)[symmetric])
    with Cons.prems show ?thesis by simp
  qed
qed

lemma drain_Some_append:
  "fst (drainBlockedSends w bs) = Some v \<Longrightarrow> fst (drainBlockedSends w (bs @ ext)) = Some v"
proof (induction bs)
  case Nil
  then show ?case by simp
next
  case (Cons b bs)
  show ?case
  proof (cases "sendRefuses w (pair_callback b)")
    case True
    with Cons show ?thesis by (simp add: callSendCallback_refuses)
  next
    case False
    then obtain w1 where "callSendCallback w (pair_callback b) = (True, w1)"
      by (cases "callSendCallback w (pair_callback b)") (simp add: callSendCallback_refuses(1)[symmetric])
    with Cons.prems show ?thesis by simp
  qed
qed

lemma drain_fst_cong:
  assumes "readyBranch w = readyBranch w'"
  shows "fst (drainBlockedSends w bs) = fst (drainBlockedSends w' bs)"
proof (cases "\<forall>b \<in> set bs. sendRefuses w (pair_callback b)")
  case True
  then have "\<forall>b \<in> set bs. sendRefuses w' (pair_callback b)"
    using sendRefuses_cong[OF assms] by blast
  with True show ?thesis by (simp add: drain_all_refuse)
next
  case False
  then show ?thesis
  proof (induction bs)
    case Nil
    then show ?case by simp
  next
    case (Cons b bs)
    show ?case
    proof (cases "sendRefuses w (pair_callback b)")
      case True
      then have r': "sendRefuses w' (pair_callback b)"
        using sendRefuses_cong[OF assms] by blast
      from True Cons.prems have "\<not> (\<forall>b \<in> set bs. sendRefuses w (pair_callback b))" by simp
      from Cons.IH[OF this] show ?thesis
        by (simp add: callSendCallback_refuses(2)[OF True] callSendCallback_refuses(2)[OF r'])
    next
      case False
      then have r': "\<not> sendRefuses w' (pair_callback b)"
        using sendRefuses_cong[OF assms] by blast
      from False obtain w1 where a: "callSendCallback w (pair_callback b) = (True, w1)"
        by (cases "callSendCallback w (pair_callback b)")
           (simp add: callSendCallback_refuses(1)[symmetric])
      from r' obtain w1' where b: "callSendCallback w' (pair_callback b) = (True, w1')"
        by (cases "callSendCallback w' (pair_callback b)")
           (simp add: callSendCallback_refuses(1)[symmetric])
      show ?thesis by (simp add: a b)
    qed
  qed
qed

lemma offer_all_refuse:
  "\<forall>r \<in> set rs. receiveRefuses w r \<Longrightarrow> offerBlockedReceives w rs v = (False, [], w)"
  by (induction rs) (simp_all add: callReceiveCallback_refuses)

lemma offer_False:
  "\<not> fst (offerBlockedReceives w rs v) \<Longrightarrow> \<forall>r \<in> set rs. receiveRefuses w r"
proof (induction rs)
  case Nil
  then show ?case by simp
next
  case (Cons r rs)
  show ?case
  proof (cases "receiveRefuses w r")
    case True
    with Cons show ?thesis by (simp add: callReceiveCallback_refuses)
  next
    case False
    then have "fst (callReceiveCallback w r v True)"
      by (simp add: callReceiveCallback_refuses(1))
    then obtain w1 where "callReceiveCallback w r v True = (True, w1)"
      by (cases "callReceiveCallback w r v True") simp
    with Cons.prems show ?thesis by simp
  qed
qed

lemma offer_accepting:
  "r \<in> set rs \<Longrightarrow> \<not> receiveRefuses w r \<Longrightarrow> fst (offerBlockedReceives w rs v)"
  using offer_False by blast


lemma receive_result:
  "fst (receiveAsyncImpl w c cbo) =
     (if buffer c \<noteq> [] then (hd (buffer c), True, True)
      else if ch_closed c then (Nil, False, False)
      else case fst (drainBlockedSends w (blockedSends c)) of
             Some v \<Rightarrow> (v, True, True)
           | None \<Rightarrow> (Nil, False, True))"
  by (cases "drainBlockedSends w (blockedSends c)")
     (auto simp: receiveAsyncImpl_def split: option.splits)

lemma receive_registers:
  assumes "buffer c = []" "\<not> ch_closed c"
    and "\<forall>b \<in> set (blockedSends c). sendRefuses w (pair_callback b)"
  shows "receiveAsyncImpl w c (Some cb) =
           ((Nil, False, True),
            c\<lparr>blockedSends := [], blockedReceives := blockedReceives c @ [cb]\<rparr>, w)"
  using assms(1,2) by (simp add: receiveAsyncImpl_def drain_all_refuse[OF assms(3)])

lemma send_registers:
  assumes "\<not> ch_closed c" "\<not> int (length (buffer c)) < ch_size c"
    and "\<forall>r \<in> set (blockedReceives c). receiveRefuses w r"
  shows "sendAsyncImpl w c v (Some p) =
           Inr (False, c\<lparr>blockedReceives := [], blockedSends := blockedSends c @ [p]\<rparr>, w)"
  using assms(1,2) by (simp add: sendAsyncImpl_def offer_all_refuse[OF assms(3)])

text \<open>Receiving from a channel that earlier cases of the same Select have probed.\<close>

lemma receive_passes_again:
  assumes rb: "readyBranch w = readyBranch w1"
    and rel: "c = c1 \<or> receivedFrom w1 c1 c"
    and notready: "fst (receiveAsyncImpl w1 c1 cbo) = (v, ok, m)" "\<not> (ok \<or> \<not> m)"
    and own: "\<not> receiveRefuses w1 cb"
  shows "receiveAsyncImpl w c (Some cb) =
           ((Nil, False, True),
            c\<lparr>blockedSends := [], blockedReceives := blockedReceives c @ [cb]\<rparr>, w)"
    and "receivedFrom w1 c1 (c\<lparr>blockedSends := [], blockedReceives := blockedReceives c @ [cb]\<rparr>)"
proof -
  from notready have b1: "buffer c1 = []" and o1: "\<not> ch_closed c1"
    and d1: "fst (drainBlockedSends w1 (blockedSends c1)) = None"
    by (auto simp: receive_result split: if_splits option.splits)
  from drain_None[OF d1] have r1: "\<forall>b \<in> set (blockedSends c1). sendRefuses w1 (pair_callback b)" .
  from rel have bc: "buffer c = []" "\<not> ch_closed c"
    "\<forall>b \<in> set (blockedSends c). sendRefuses w (pair_callback b)"
    using b1 o1 r1 sendRefuses_cong[OF rb] by (auto simp: receivedFrom_def)
  from receive_registers[OF bc] show "receiveAsyncImpl w c (Some cb) =
           ((Nil, False, True),
            c\<lparr>blockedSends := [], blockedReceives := blockedReceives c @ [cb]\<rparr>, w)" .
  from rel show "receivedFrom w1 c1 (c\<lparr>blockedSends := [], blockedReceives := blockedReceives c @ [cb]\<rparr>)"
  proof
    assume "c = c1"
    then show ?thesis using b1 o1 r1 own
      unfolding receivedFrom_def by (intro conjI exI[of _ "[cb]"]) simp_all
  next
    assume "receivedFrom w1 c1 c"
    then obtain owns where ow: "owns \<noteq> []" "\<forall>r \<in> set owns. \<not> receiveRefuses w1 r"
      "c = c1\<lparr>blockedSends := [], blockedReceives := blockedReceives c1 @ owns\<rparr>"
      unfolding receivedFrom_def by blast
    show ?thesis using b1 o1 r1 own ow
      unfolding receivedFrom_def by (intro conjI exI[of _ "owns @ [cb]"]) simp_all
  qed
qed

lemma receive_fires_again:
  assumes rb: "readyBranch w = readyBranch w1"
    and rel: "c = c1 \<or> receivedFrom w1 c1 c \<or> sentTo w1 c1 c"
    and isready: "fst (receiveAsyncImpl w1 c1 cbo) = (v, ok, m)" "ok \<or> \<not> m"
  shows "fst (receiveAsyncImpl w c cbo') = (v, ok, m)"
proof -
  from rel consider "c = c1" | "receivedFrom w1 c1 c" | "sentTo w1 c1 c" by blast
  then show ?thesis
  proof cases
    case 1
    have "fst (receiveAsyncImpl w c cbo') = fst (receiveAsyncImpl w1 c1 cbo)"
      by (simp add: receive_result 1 drain_fst_cong[OF rb])
    with isready(1) show ?thesis by simp
  next
    case 2
    then have "buffer c1 = []" "\<not> ch_closed c1"
      "\<forall>b \<in> set (blockedSends c1). sendRefuses w1 (pair_callback b)"
      by (auto simp: receivedFrom_def)
    with isready drain_all_refuse[of "blockedSends c1" w1] show ?thesis
      by (auto simp: receive_result)
  next
    case 3
    then obtain ownp where c: "c = c1\<lparr>blockedReceives := [], blockedSends := blockedSends c1 @ ownp\<rparr>"
      and o1: "\<not> ch_closed c1"
      by (auto simp: sentTo_def)
    show ?thesis
    proof (cases "buffer c1 = []")
      case False
      have "fst (receiveAsyncImpl w c cbo') = fst (receiveAsyncImpl w1 c1 cbo)"
        using False by (simp add: receive_result c)
      with isready(1) show ?thesis by simp
    next
      case True
      with isready o1 obtain v' where d: "fst (drainBlockedSends w1 (blockedSends c1)) = Some v'"
        by (auto simp: receive_result split: option.splits)
      with drain_fst_cong[OF rb, of "blockedSends c1"]
      have "fst (drainBlockedSends w (blockedSends c1)) = Some v'" by simp
      from drain_Some_append[OF this, of ownp] d True o1
      have "fst (receiveAsyncImpl w c cbo') = fst (receiveAsyncImpl w1 c1 cbo)"
        by (simp add: receive_result c)
      with isready(1) show ?thesis by simp
    qed
  qed
qed


lemma offer_fst_iff:
  "fst (offerBlockedReceives w rs v) = (\<exists>r \<in> set rs. \<not> receiveRefuses w r)"
proof
  assume a: "fst (offerBlockedReceives w rs v)"
  show "\<exists>r \<in> set rs. \<not> receiveRefuses w r"
  proof (rule ccontr)
    assume "\<not> (\<exists>r \<in> set rs. \<not> receiveRefuses w r)"
    then have "\<forall>r \<in> set rs. receiveRefuses w r" by blast
    from offer_all_refuse[OF this, of v] a show False by simp
  qed
next
  assume "\<exists>r \<in> set rs. \<not> receiveRefuses w r"
  then show "fst (offerBlockedReceives w rs v)" using offer_False[of w rs v] by blast
qed

lemma send_ok_iff:
  "(\<exists>x. sendAsyncImpl w c v po = Inr (True, x)) \<longleftrightarrow>
     \<not> ch_closed c \<and>
     ((\<exists>r \<in> set (blockedReceives c). \<not> receiveRefuses w r) \<or> int (length (buffer c)) < ch_size c)"
  "(\<exists>x. sendAsyncImpl w c v po = Inr (False, x)) \<longleftrightarrow>
     \<not> ch_closed c \<and>
     \<not> ((\<exists>r \<in> set (blockedReceives c). \<not> receiveRefuses w r) \<or> int (length (buffer c)) < ch_size c)"
proof -
  obtain a rs w' where o: "offerBlockedReceives w (blockedReceives c) v = (a, rs, w')"
    by (cases "offerBlockedReceives w (blockedReceives c) v")
  then have a: "a = (\<exists>r \<in> set (blockedReceives c). \<not> receiveRefuses w r)"
    using offer_fst_iff[of w "blockedReceives c" v] by simp
  show "(\<exists>x. sendAsyncImpl w c v po = Inr (True, x)) \<longleftrightarrow>
     \<not> ch_closed c \<and>
     ((\<exists>r \<in> set (blockedReceives c). \<not> receiveRefuses w r) \<or> int (length (buffer c)) < ch_size c)"
    unfolding a[symmetric] by (cases a) (auto simp: sendAsyncImpl_def o)
  show "(\<exists>x. sendAsyncImpl w c v po = Inr (False, x)) \<longleftrightarrow>
     \<not> ch_closed c \<and>
     \<not> ((\<exists>r \<in> set (blockedReceives c). \<not> receiveRefuses w r) \<or> int (length (buffer c)) < ch_size c)"
    unfolding a[symmetric] by (cases a) (auto simp: sendAsyncImpl_def o)
qed

lemma send_passes_again:
  assumes rb: "readyBranch w = readyBranch w1"
    and rel: "c = c1 \<or> sentTo w1 c1 c"
    and notready: "sendAsyncImpl w1 c1 v po = Inr (False, x)"
  shows "sendAsyncImpl w c v' (Some p) =
           Inr (False, c\<lparr>blockedReceives := [], blockedSends := blockedSends c @ [p]\<rparr>, w)"
    and "sentTo w1 c1 (c\<lparr>blockedReceives := [], blockedSends := blockedSends c @ [p]\<rparr>)"
proof -
  from notready send_ok_iff(2)[of w1 c1 v po]
  have o1: "\<not> ch_closed c1" and room: "\<not> int (length (buffer c1)) < ch_size c1"
    and r1: "\<forall>r \<in> set (blockedReceives c1). receiveRefuses w1 r"
    by blast+
  from rel have bc: "\<not> ch_closed c" "\<not> int (length (buffer c)) < ch_size c"
    "\<forall>r \<in> set (blockedReceives c). receiveRefuses w r"
    using o1 room r1 receiveRefuses_cong[OF rb] by (auto simp: sentTo_def)
  from send_registers[OF bc] show "sendAsyncImpl w c v' (Some p) =
           Inr (False, c\<lparr>blockedReceives := [], blockedSends := blockedSends c @ [p]\<rparr>, w)" .
  from rel show "sentTo w1 c1 (c\<lparr>blockedReceives := [], blockedSends := blockedSends c @ [p]\<rparr>)"
  proof
    assume "c = c1"
    then show ?thesis using o1 room r1
      unfolding sentTo_def by (intro conjI exI[of _ "[p]"]) simp_all
  next
    assume "sentTo w1 c1 c"
    then obtain ownp where ow: "ownp \<noteq> []"
      "c = c1\<lparr>blockedReceives := [], blockedSends := blockedSends c1 @ ownp\<rparr>"
      unfolding sentTo_def by blast
    show ?thesis using o1 room r1 ow
      unfolding sentTo_def by (intro conjI exI[of _ "ownp @ [p]"]) simp_all
  qed
qed

lemma send_fires_again:
  assumes rb: "readyBranch w = readyBranch w1"
    and rel: "c = c1 \<or> receivedFrom w1 c1 c \<or> sentTo w1 c1 c"
    and isready: "sendAsyncImpl w1 c1 v po = Inr (True, x)"
  shows "\<exists>x'. sendAsyncImpl w c v' po' = Inr (True, x')"
proof -
  from isready send_ok_iff(1)[of w1 c1 v po]
  have o1: "\<not> ch_closed c1"
    and ok: "(\<exists>r \<in> set (blockedReceives c1). \<not> receiveRefuses w1 r) \<or>
             int (length (buffer c1)) < ch_size c1"
    by blast+
  from rel consider "c = c1" | "receivedFrom w1 c1 c" | "sentTo w1 c1 c" by blast
  then have "\<not> ch_closed c \<and>
     ((\<exists>r \<in> set (blockedReceives c). \<not> receiveRefuses w r) \<or>
      int (length (buffer c)) < ch_size c)"
  proof cases
    case 1
    with o1 ok receiveRefuses_cong[OF rb] show ?thesis by auto
  next
    case 2
    then obtain owns where ow: "owns \<noteq> []" "\<forall>r \<in> set owns. \<not> receiveRefuses w1 r"
      "c = c1\<lparr>blockedSends := [], blockedReceives := blockedReceives c1 @ owns\<rparr>"
      unfolding receivedFrom_def by blast
    from ow(1) obtain r where "r \<in> set owns" by (cases owns) auto
    with ow(2) have "\<not> receiveRefuses w r" using receiveRefuses_cong[OF rb] by blast
    with \<open>r \<in> set owns\<close> ow(3) o1 show ?thesis by auto
  next
    case 3
    with ok show ?thesis by (auto simp: sentTo_def)
  qed
  then show ?thesis
    using send_ok_iff(1)[of w c v' po'] by blast
qed

lemma GetAsync_quiet:
  assumes "f < length (futures w)" "buffer (channel (futures w ! f)) = []"
    "blockedSends (channel (futures w ! f)) = []"
  shows "GetAsync w f (Some cb) =
     (if ch_closed (channel (futures w ! f)) then
        (if \<not> ready (futures w ! f) then Inl NotReady
         else Inr ((fvalue (futures w ! f), True, ferr (futures w ! f)), w))
      else Inr ((Nil, False, None),
                w\<lparr>futures := (futures w)
                     [f := (futures w ! f)
                        \<lparr>channel := (channel (futures w ! f))
                           \<lparr>blockedReceives := blockedReceives (channel (futures w ! f)) @ [cb]\<rparr>\<rparr>]\<rparr>))"
proof -
  have same: "w\<lparr>futures := (futures w)[f := (futures w ! f)\<lparr>channel := channel (futures w ! f)\<rparr>]\<rparr> = w"
    by simp
  have upd: "(channel (futures w ! f))\<lparr>blockedSends := [],
       blockedReceives := blockedReceives (channel (futures w ! f)) @ [cb]\<rparr> =
     (channel (futures w ! f))\<lparr>blockedReceives := blockedReceives (channel (futures w ! f)) @ [cb]\<rparr>"
    using assms(3) by simp
  show ?thesis
    using assms by (simp add: GetAsync_def receiveAsyncImpl_def Let_def same upd)
qed


lemma selectInv_start: "selectInv w1 cs 0 w1"
  by (auto simp: selectInv_def futuresRel_def intro!: exI[of _ "[]"])

lemma selectInv_Suc: "selectInv w1 cs j w \<Longrightarrow> selectInv w1 cs (Suc j) w"
  unfolding selectInv_def by (meson less_Suc_eq)

lemma selectInv_channel_update:
  assumes inv: "selectInv w1 cs j w" and j: "j < length cs" and ch: "sc_channel (cs ! j) = c"
    and new: "(isReceiveCase (cs ! j) \<and> receivedFrom w1 (channels w1 c) c') \<or>
              (isSendCase (cs ! j) \<and> sentTo w1 (channels w1 c) c')"
  shows "selectInv w1 cs (Suc j) (w\<lparr>channels := (channels w)(c := c')\<rparr>)"
proof -
  from selectInv_Suc[OF inv] have s: "selectInv w1 cs (Suc j) w" .
  show ?thesis
    unfolding selectInv_def
  proof (intro conjI allI)
    fix d
    show "channels (w\<lparr>channels := (channels w)(c := c')\<rparr>) d = channels w1 d \<or>
          (receivedFrom w1 (channels w1 d) (channels (w\<lparr>channels := (channels w)(c := c')\<rparr>) d) \<and>
           (\<exists>j' < Suc j. j' < length cs \<and> isReceiveCase (cs ! j') \<and> sc_channel (cs ! j') = d)) \<or>
          (sentTo w1 (channels w1 d) (channels (w\<lparr>channels := (channels w)(c := c')\<rparr>) d) \<and>
           (\<exists>j' < Suc j. j' < length cs \<and> isSendCase (cs ! j') \<and> sc_channel (cs ! j') = d))"
    proof (cases "d = c")
      case True
      with new j ch show ?thesis by auto
    next
      case False
      with s show ?thesis unfolding selectInv_def by simp
    qed
  qed (use s in \<open>simp_all add: selectInv_def futuresRel_def\<close>)
qed


lemma select_case_kinds:
  fixes pair :: selectCase
  obtains (Receive) f where "receiveFunc pair = Some f"
  | (ReceiveMore) f where "receiveFunc pair = None" "receiveWithMoreFlagFunc pair = Some f"
  | (Send) f where "receiveFunc pair = None" "receiveWithMoreFlagFunc pair = None"
      "sendFunc pair = Some f"
  | (Future) f where "receiveFunc pair = None" "receiveWithMoreFlagFunc pair = None"
      "sendFunc pair = None" "futureFunc pair = Some f"
  | (Nothing) "receiveFunc pair = None" "receiveWithMoreFlagFunc pair = None"
      "sendFunc pair = None" "futureFunc pair = None"
  by (cases "receiveFunc pair"; cases "receiveWithMoreFlagFunc pair"; cases "sendFunc pair";
      cases "futureFunc pair") auto

lemma select_case_passes_again:
  assumes inv: "selectInv w1 cs j w" and cs: "cs = cases (selectors w1 s)"
    and j: "j < i" "i \<le> length cs"
    and nsr: "noSelfRendezvous (take i cs)"
    and quiet: "futureChannelsQuiet w1"
    and k: "readyBranch w1 k = None"
    and pass: "select_case w1 s k j = Inr (None, x)"
  shows "\<exists>w'. select_case w s k j = Inr (None, w') \<and> selectInv w1 cs (Suc j) w'"
proof -
  let ?pair = "cs ! j"
  let ?c = "sc_channel ?pair"
  from inv have rb: "readyBranch w = readyBranch w1" and sel: "selectors w = selectors w1"
    and fr: "futuresRel w1 w"
    by (simp_all add: selectInv_def)
  have pw: "cases (selectors w s) ! j = ?pair" and pw1: "cases (selectors w1 s) ! j = ?pair"
    by (simp_all add: sel cs)
  from j have jl: "j < length cs" by simp
  from j have mem: "?pair \<in> set (take i cs)"
    by (metis in_set_conv_nth length_take min.absorb2 nth_take)
  have norecv: "isSendCase ?pair \<Longrightarrow>
      channels w ?c = channels w1 ?c \<or> sentTo w1 (channels w1 ?c) (channels w ?c)"
  proof -
    assume sc: "isSendCase ?pair"
    { assume "\<exists>j' < j. j' < length cs \<and> isReceiveCase (cs ! j') \<and> sc_channel (cs ! j') = ?c"
      then obtain j' where j': "j' < j" "j' < length cs" "isReceiveCase (cs ! j')"
        "sc_channel (cs ! j') = ?c" by blast
      from j' j have "cs ! j' \<in> set (take i cs)"
        by (metis in_set_conv_nth length_take less_trans min.absorb2 nth_take)
      with nsr mem sc j'(3,4) have False unfolding noSelfRendezvous_def by blast }
    with inv show ?thesis unfolding selectInv_def by blast
  qed
  have nosend: "isReceiveCase ?pair \<Longrightarrow>
      channels w ?c = channels w1 ?c \<or> receivedFrom w1 (channels w1 ?c) (channels w ?c)"
  proof -
    assume rc: "isReceiveCase ?pair"
    { assume "\<exists>j' < j. j' < length cs \<and> isSendCase (cs ! j') \<and> sc_channel (cs ! j') = ?c"
      then obtain j' where j': "j' < j" "j' < length cs" "isSendCase (cs ! j')"
        "sc_channel (cs ! j') = ?c" by blast
      from j' j have "cs ! j' \<in> set (take i cs)"
        by (metis in_set_conv_nth length_take less_trans min.absorb2 nth_take)
      with nsr mem rc j'(3,4) have False unfolding noSelfRendezvous_def by metis }
    with inv show ?thesis unfolding selectInv_def by blast
  qed
  show ?thesis
  proof (cases ?pair rule: select_case_kinds)
    case (Receive f)
    let ?cb = "SelectReceiveCallback k f"
    have rc: "isReceiveCase ?pair" using Receive by (simp add: isReceiveCase_def)
    obtain v ok m c1' w1' where r1: "receiveAsyncImpl w1 (channels w1 ?c) (Some ?cb) = ((v, ok, m), c1', w1')"
      by (metis prod_cases3)
    with pass Receive have nr: "\<not> (ok \<or> \<not> m)"
      by (auto simp: select_case_def pw1 Let_def split: if_splits)
    from r1 have f1: "fst (receiveAsyncImpl w1 (channels w1 ?c) (Some ?cb)) = (v, ok, m)" by simp
    have own: "\<not> receiveRefuses w1 ?cb" using k by simp
    note again = receive_passes_again[OF rb nosend[OF rc] f1 nr own]
    let ?c' = "(channels w ?c)\<lparr>blockedSends := [],
                 blockedReceives := blockedReceives (channels w ?c) @ [?cb]\<rparr>"
    have "select_case w s k j = Inr (None, w\<lparr>channels := (channels w)(?c := ?c')\<rparr>)"
      using Receive by (simp add: select_case_def pw Let_def again(1))
    moreover have "selectInv w1 cs (Suc j) (w\<lparr>channels := (channels w)(?c := ?c')\<rparr>)"
      using selectInv_channel_update[OF inv jl refl] rc again(2) by blast
    ultimately show ?thesis by blast
  next
    case (ReceiveMore f)
    let ?cb = "SelectReceiveMoreCallback k f"
    have rc: "isReceiveCase ?pair" using ReceiveMore by (simp add: isReceiveCase_def)
    obtain v ok m c1' w1' where r1: "receiveAsyncImpl w1 (channels w1 ?c) (Some ?cb) = ((v, ok, m), c1', w1')"
      by (metis prod_cases3)
    with pass ReceiveMore have nr: "\<not> (ok \<or> \<not> m)"
      by (auto simp: select_case_def pw1 Let_def split: if_splits)
    from r1 have f1: "fst (receiveAsyncImpl w1 (channels w1 ?c) (Some ?cb)) = (v, ok, m)" by simp
    have own: "\<not> receiveRefuses w1 ?cb" using k by simp
    note again = receive_passes_again[OF rb nosend[OF rc] f1 nr own]
    let ?c' = "(channels w ?c)\<lparr>blockedSends := [],
                 blockedReceives := blockedReceives (channels w ?c) @ [?cb]\<rparr>"
    have "select_case w s k j = Inr (None, w\<lparr>channels := (channels w)(?c := ?c')\<rparr>)"
      using ReceiveMore by (simp add: select_case_def pw Let_def again(1))
    moreover have "selectInv w1 cs (Suc j) (w\<lparr>channels := (channels w)(?c := ?c')\<rparr>)"
      using selectInv_channel_update[OF inv jl refl] rc again(2) by blast
    ultimately show ?thesis by blast
  next
    case (Send f)
    let ?p = "\<lparr>pair_value = sendValue ?pair, pair_callback = SelectSendCallback k f\<rparr>"
    have sc: "isSendCase ?pair" using Send by (simp add: isSendCase_def)
    from pass Send obtain x1 where
      r1: "sendAsyncImpl w1 (channels w1 ?c) (sendValue ?pair) (Some ?p) = Inr (False, x1)"
      by (auto simp: select_case_def pw1 Let_def split: sum.splits if_splits)
    note again = send_passes_again(1)[OF rb norecv[OF sc] r1, of "sendValue ?pair" ?p]
      send_passes_again(2)[OF rb norecv[OF sc] r1, of ?p]
    let ?c' = "(channels w ?c)\<lparr>blockedReceives := [],
                 blockedSends := blockedSends (channels w ?c) @ [?p]\<rparr>"
    have "select_case w s k j = Inr (None, w\<lparr>channels := (channels w)(?c := ?c')\<rparr>)"
      using Send by (simp add: select_case_def pw Let_def again(1))
    moreover have "selectInv w1 cs (Suc j) (w\<lparr>channels := (channels w)(?c := ?c')\<rparr>)"
      using selectInv_channel_update[OF inv jl refl] sc again(2) by blast
    ultimately show ?thesis by blast
  next
    case (Future f)
    let ?fu = "sc_future ?pair"
    let ?cb = "SelectFutureCallback k s j f ?fu"
    from pass Future have lt: "?fu < length (futures w1)"
      by (auto simp: select_case_def pw1 Let_def GetAsync_def split: if_splits)
    from quiet lt have q1: "buffer (channel (futures w1 ! ?fu)) = []"
      "blockedSends (channel (futures w1 ! ?fu)) = []"
      by (simp_all add: futureChannelsQuiet_def)
    from pass Future have op: "\<not> ch_closed (channel (futures w1 ! ?fu))"
      by (auto simp: select_case_def pw1 Let_def GetAsync_quiet[OF lt q1] split: if_splits)
    from fr lt obtain owns where ow: "futures w ! ?fu =
          (futures w1 ! ?fu)\<lparr>channel := (channel (futures w1 ! ?fu))
             \<lparr>blockedReceives := blockedReceives (channel (futures w1 ! ?fu)) @ owns\<rparr>\<rparr>"
      and len: "length (futures w) = length (futures w1)"
      unfolding futuresRel_def by blast
    have ltw: "?fu < length (futures w)" using lt len by simp
    have qw: "buffer (channel (futures w ! ?fu)) = []" "blockedSends (channel (futures w ! ?fu)) = []"
      and opw: "\<not> ch_closed (channel (futures w ! ?fu))"
      using q1 op by (simp_all add: ow)
    let ?w' = "w\<lparr>futures := (futures w)
                     [?fu := (futures w ! ?fu)
                        \<lparr>channel := (channel (futures w ! ?fu))
                           \<lparr>blockedReceives := blockedReceives (channel (futures w ! ?fu)) @ [?cb]\<rparr>\<rparr>]\<rparr>"
    have "select_case w s k j = Inr (None, ?w')"
      using Future opw by (simp add: select_case_def pw Let_def GetAsync_quiet[OF ltw qw])
    moreover have "selectInv w1 cs (Suc j) ?w'"
    proof -
      have "futuresRel w1 ?w'"
        unfolding futuresRel_def
      proof (intro conjI allI impI)
        show "length (futures ?w') = length (futures w1)" using len by simp
        fix g assume g: "g < length (futures w1)"
        show "\<exists>owns. futures ?w' ! g =
          (futures w1 ! g)\<lparr>channel := (channel (futures w1 ! g))
             \<lparr>blockedReceives := blockedReceives (channel (futures w1 ! g)) @ owns\<rparr>\<rparr>"
        proof (cases "g = ?fu")
          case True
          show ?thesis
            by (rule exI[of _ "owns @ [?cb]"]) (use True ltw ow in simp)
        next
          case False
          with fr g show ?thesis unfolding futuresRel_def by simp
        qed
      qed
      with selectInv_Suc[OF inv] show ?thesis by (simp add: selectInv_def)
    qed
    ultimately show ?thesis by blast
  next
    case Nothing
    then have "select_case w s k j = Inr (None, w)"
      by (simp add: select_case_def pw Let_def)
    with selectInv_Suc[OF inv] show ?thesis by blast
  qed
qed


lemma select_case_fires_again:
  assumes inv: "selectInv w1 cs i w" and cs: "cs = cases (selectors w1 s)"
    and quiet: "futureChannelsQuiet w1"
    and fires: "select_case w1 s k i = Inr (Some h, x)"
  shows "\<exists>w'. select_case w s k i = Inr (Some h, w')"
proof -
  let ?pair = "cs ! i"
  let ?c = "sc_channel ?pair"
  from inv have rb: "readyBranch w = readyBranch w1" and sel: "selectors w = selectors w1"
    and fr: "futuresRel w1 w"
    by (simp_all add: selectInv_def)
  have pw: "cases (selectors w s) ! i = ?pair" and pw1: "cases (selectors w1 s) ! i = ?pair"
    by (simp_all add: sel cs)
  from inv have rel: "channels w ?c = channels w1 ?c \<or>
      receivedFrom w1 (channels w1 ?c) (channels w ?c) \<or>
      sentTo w1 (channels w1 ?c) (channels w ?c)"
    unfolding selectInv_def by blast
  show ?thesis
  proof (cases ?pair rule: select_case_kinds)
    case (Receive f)
    let ?cb = "SelectReceiveCallback k f"
    obtain v ok m c1' w1' where r1: "receiveAsyncImpl w1 (channels w1 ?c) (Some ?cb) = ((v, ok, m), c1', w1')"
      by (metis prod_cases3)
    with fires Receive have rd: "ok \<or> \<not> m" and h: "h = CallReceive f v"
      by (auto simp: select_case_def pw1 Let_def split: if_splits)
    from r1 have f1: "fst (receiveAsyncImpl w1 (channels w1 ?c) (Some ?cb)) = (v, ok, m)" by simp
    from receive_fires_again[OF rb rel f1 rd, of "Some ?cb"]
    obtain c' w' where "receiveAsyncImpl w (channels w ?c) (Some ?cb) = ((v, ok, m), c', w')"
      by (cases "receiveAsyncImpl w (channels w ?c) (Some ?cb)") auto
    with Receive rd h show ?thesis
      by (auto simp: select_case_def pw Let_def)
  next
    case (ReceiveMore f)
    let ?cb = "SelectReceiveMoreCallback k f"
    obtain v ok m c1' w1' where r1: "receiveAsyncImpl w1 (channels w1 ?c) (Some ?cb) = ((v, ok, m), c1', w1')"
      by (metis prod_cases3)
    with fires ReceiveMore have rd: "ok \<or> \<not> m" and h: "h = CallReceiveMore f v m"
      by (auto simp: select_case_def pw1 Let_def split: if_splits)
    from r1 have f1: "fst (receiveAsyncImpl w1 (channels w1 ?c) (Some ?cb)) = (v, ok, m)" by simp
    from receive_fires_again[OF rb rel f1 rd, of "Some ?cb"]
    obtain c' w' where "receiveAsyncImpl w (channels w ?c) (Some ?cb) = ((v, ok, m), c', w')"
      by (cases "receiveAsyncImpl w (channels w ?c) (Some ?cb)") auto
    with ReceiveMore rd h show ?thesis
      by (auto simp: select_case_def pw Let_def)
  next
    case (Send f)
    let ?p = "\<lparr>pair_value = sendValue ?pair, pair_callback = SelectSendCallback k f\<rparr>"
    from fires Send obtain x1 where
      r1: "sendAsyncImpl w1 (channels w1 ?c) (sendValue ?pair) (Some ?p) = Inr (True, x1)"
      and h: "h = CallSend f"
      by (auto simp: select_case_def pw1 Let_def split: sum.splits if_splits)
    from send_fires_again[OF rb rel r1, of "sendValue ?pair" "Some ?p"]
    obtain c' w' where "sendAsyncImpl w (channels w ?c) (sendValue ?pair) (Some ?p) = Inr (True, c', w')"
      by (metis surj_pair)
    with Send h show ?thesis
      by (auto simp: select_case_def pw Let_def)
  next
    case (Future f)
    let ?fu = "sc_future ?pair"
    let ?cb = "SelectFutureCallback k s i f ?fu"
    from fires Future have lt: "?fu < length (futures w1)"
      by (auto simp: select_case_def pw1 Let_def GetAsync_def split: if_splits)
    from quiet lt have q1: "buffer (channel (futures w1 ! ?fu)) = []"
      "blockedSends (channel (futures w1 ! ?fu)) = []"
      by (simp_all add: futureChannelsQuiet_def)
    from fires Future have cl: "ch_closed (channel (futures w1 ! ?fu))"
      and rd: "ready (futures w1 ! ?fu)" and h: "h = CallFuture f ?fu"
      by (auto simp: select_case_def pw1 Let_def GetAsync_quiet[OF lt q1] split: if_splits)
    from fr lt obtain owns where ow: "futures w ! ?fu =
          (futures w1 ! ?fu)\<lparr>channel := (channel (futures w1 ! ?fu))
             \<lparr>blockedReceives := blockedReceives (channel (futures w1 ! ?fu)) @ owns\<rparr>\<rparr>"
      and len: "length (futures w) = length (futures w1)"
      unfolding futuresRel_def by blast
    have ltw: "?fu < length (futures w)" using lt len by simp
    have qw: "buffer (channel (futures w ! ?fu)) = []" "blockedSends (channel (futures w ! ?fu)) = []"
      and clw: "ch_closed (channel (futures w ! ?fu))" and rdw: "ready (futures w ! ?fu)"
      using q1 cl rd by (simp_all add: ow)
    show ?thesis
      using Future clw rdw h
      by (simp add: select_case_def pw Let_def GetAsync_quiet[OF ltw qw])
  next
    case Nothing
    with fires show ?thesis by (simp add: select_case_def pw1 Let_def)
  qed
qed

lemma select_cases_reaches:
  assumes cs: "cs = cases (selectors w1 s)" and i: "i < length cs"
    and nsr: "noSelfRendezvous (take i cs)"
    and quiet: "futureChannelsQuiet w1"
    and k: "readyBranch w1 k = None"
    and passes: "\<forall>j < i. \<exists>x. select_case w1 s k j = Inr (None, x)"
    and fires: "select_case w1 s k i = Inr (Some h, x)"
  shows "j \<le> i \<Longrightarrow> selectInv w1 cs j w \<Longrightarrow>
         \<exists>w'. select_cases w s k [j ..< length cs] = Inr (Some h, w')"
proof (induction "i - j" arbitrary: j w)
  case 0
  then have ji: "j = i" by simp
  from select_case_fires_again[OF 0(3)[unfolded ji] cs quiet fires]
  obtain w' where "select_case w s k i = Inr (Some h, w')" by blast
  then show ?case using i by (simp add: ji upt_conv_Cons)
next
  case (Suc d)
  then have ji: "j < i" by simp
  from passes ji obtain x' where "select_case w1 s k j = Inr (None, x')" by blast
  from select_case_passes_again[OF Suc(4) cs ji _ nsr quiet k this] i
  obtain w' where st: "select_case w s k j = Inr (None, w')" and inv': "selectInv w1 cs (Suc j) w'"
    by auto
  from Suc(2) ji have "d = i - Suc j" "Suc j \<le> i" by simp_all
  from Suc(1)[OF this inv'] obtain w'' where
    "select_cases w' s k [Suc j ..< length cs] = Inr (Some h, w'')" by blast
  then show ?case using ji i st by (simp add: upt_conv_Cons)
qed

lemma select_case_handler:
  assumes "select_case w s k i = Inr (Some h, x)"
  shows "handler (cases (selectors w s) ! i) = Some (invokedFunc h)"
proof (cases "cases (selectors w s) ! i" rule: select_case_kinds)
  case (Receive f)
  with assms show ?thesis
    by (auto simp: select_case_def handler_def Let_def split: prod.splits if_splits)
next
  case (ReceiveMore f)
  with assms show ?thesis
    by (auto simp: select_case_def handler_def Let_def split: prod.splits if_splits)
next
  case (Send f)
  with assms show ?thesis
    by (auto simp: select_case_def handler_def Let_def split: sum.splits prod.splits if_splits)
next
  case (Future f)
  with assms show ?thesis
    by (auto simp: select_case_def handler_def Let_def split: sum.splits prod.splits if_splits)
next
  case Nothing
  with assms show ?thesis by (simp add: select_case_def Let_def)
qed

text \<open>
  The first attempt that succeeds decides: when the attempt of case \<open>i\<close>, made first,
  succeeds with \<open>h\<close> and the attempts of the earlier cases neither succeed nor panic,
  \<open>Select\<close> returns having invoked \<open>h\<close>; the attempts of the earlier cases do not change
  what the attempt of case \<open>i\<close> gives.
\<close>

lemma Select_first_success:
  assumes i: "i < length (cases (selectors w s))"
    and ready: "readyAtCall w s i = Some h"
    and earlier: "\<forall>j < i. passedAtCall w s j"
    and nsr: "noSelfRendezvous (take i (cases (selectors w s)))"
    and quiet: "futureChannelsQuiet w"
  shows "handler (cases (selectors w s) ! i) = Some (invokedFunc h) \<and>
         (\<exists>w'. Select w state s = Inr (Returned [h], state, w'))"
proof -
  let ?w1 = "Select_enter w"
  let ?k = "nextFrame w"
  let ?cs = "cases (selectors ?w1 s)"
  have cs: "?cs = cases (selectors w s)" by (simp add: Select_enter_def)
  have k: "readyBranch ?w1 ?k = None" by (simp add: Select_enter_def)
  have q: "futureChannelsQuiet ?w1" using quiet
    by (simp add: futureChannelsQuiet_def Select_enter_def)
  from ready obtain x where f: "select_case ?w1 s ?k i = Inr (Some h, x)"
    by (auto simp: readyAtCall_def split: sum.splits option.splits)
  have p: "\<forall>j < i. \<exists>x. select_case ?w1 s ?k j = Inr (None, x)"
  proof (intro allI impI)
    fix j assume "j < i"
    with earlier have "passedAtCall w s j" by blast
    then show "\<exists>x. select_case ?w1 s ?k j = Inr (None, x)"
      by (auto simp: passedAtCall_def split: sum.splits option.splits)
  qed
  from select_cases_reaches[OF refl _ _ q k p f, of 0 ?w1] i nsr cs selectInv_start
  obtain w' where "select_cases ?w1 s ?k [0 ..< length ?cs] = Inr (Some h, w')"
    by auto
  then have "\<exists>w'. Select w state s = Inr (Returned [h], state, w')"
    by (simp add: Select_def Let_def)
  moreover from select_case_handler[OF f] cs
  have "handler (cases (selectors w s) ! i) = Some (invokedFunc h)"
    by (simp add: Select_enter_def)
  ultimately show ?thesis by blast
qed

text \<open>What the attempts give, in terms of the heap at the time \<open>Select\<close> is called.\<close>

lemma drain_first:
  "fst (drainBlockedSends w bs) =
     (case filter (\<lambda>b. \<not> sendRefuses w (pair_callback b)) bs of
        [] \<Rightarrow> None
      | b # _ \<Rightarrow> Some (pair_value b))"
proof (induction bs)
  case Nil
  show ?case by simp
next
  case (Cons b bs)
  show ?case
  proof (cases "sendRefuses w (pair_callback b)")
    case True
    with Cons show ?thesis by (simp add: callSendCallback_refuses)
  next
    case False
    then obtain w1 where "callSendCallback w (pair_callback b) = (True, w1)"
      by (cases "callSendCallback w (pair_callback b)") (simp add: callSendCallback_refuses(1)[symmetric])
    with False show ?thesis by simp
  qed
qed

lemma receive_ready:
  assumes "buffer c \<noteq> [] \<or> ch_closed c \<or> senderWaits w c"
  shows "fst (receiveAsyncImpl w c cbo) =
           (firstOffered w c, buffer c \<noteq> [] \<or> \<not> ch_closed c, buffer c \<noteq> [] \<or> \<not> ch_closed c)"
proof (cases "buffer c \<noteq> [] \<or> ch_closed c")
  case True
  then show ?thesis by (auto simp: receive_result firstOffered_def)
next
  case False
  with assms obtain b where "b \<in> set (blockedSends c)" "\<not> sendRefuses w (pair_callback b)"
    by (auto simp: senderWaits_def)
  then have "filter (\<lambda>b. \<not> sendRefuses w (pair_callback b)) (blockedSends c) \<noteq> []"
    by (auto simp: filter_empty_conv)
  then obtain b' rest where
    "filter (\<lambda>b. \<not> sendRefuses w (pair_callback b)) (blockedSends c) = b' # rest"
    by (cases "filter (\<lambda>b. \<not> sendRefuses w (pair_callback b)) (blockedSends c)") auto
  with False show ?thesis by (simp add: receive_result firstOffered_def drain_first)
qed

lemma receive_not_ready:
  assumes "\<not> (buffer c \<noteq> [] \<or> ch_closed c \<or> senderWaits w c)"
  shows "fst (receiveAsyncImpl w c cbo) = (Nil, False, True)"
proof -
  from assms have "filter (\<lambda>b. \<not> sendRefuses w (pair_callback b)) (blockedSends c) = []"
    by (auto simp: senderWaits_def filter_empty_conv)
  with assms show ?thesis by (simp add: receive_result drain_first)
qed

lemma Select_enter_same:
  assumes "readyBranch w (nextFrame w) = None"
  shows "readyBranch (Select_enter w) = readyBranch w"
    and "channels (Select_enter w) = channels w"
    and "futures (Select_enter w) = futures w"
    and "selectors (Select_enter w) = selectors w"
    and "senderWaits (Select_enter w) c = senderWaits w c"
    and "receiverWaits (Select_enter w) c = receiverWaits w c"
    and "firstOffered (Select_enter w) c = firstOffered w c"
proof -
  show rb: "readyBranch (Select_enter w) = readyBranch w"
    using assms by (auto simp: Select_enter_def fun_eq_iff)
  show "channels (Select_enter w) = channels w" "futures (Select_enter w) = futures w"
    "selectors (Select_enter w) = selectors w"
    by (simp_all add: Select_enter_def)
  have s: "\<And>cb. sendRefuses (Select_enter w) cb = sendRefuses w cb"
    using sendRefuses_cong[OF rb] .
  have r: "\<And>cb. receiveRefuses (Select_enter w) cb = receiveRefuses w cb"
    using receiveRefuses_cong[OF rb] .
  show "senderWaits (Select_enter w) c = senderWaits w c" by (simp add: senderWaits_def s)
  show "receiverWaits (Select_enter w) c = receiverWaits w c" by (simp add: receiverWaits_def r)
  show "firstOffered (Select_enter w) c = firstOffered w c" by (simp add: firstOffered_def s)
qed

lemma caseReady_fires:
  assumes fresh: "readyBranch w (nextFrame w) = None"
    and quiet: "futureChannelsQuiet w"
    and sig: "futureSignalled w (cases (selectors w s) ! i)"
    and rdy: "caseReady w (cases (selectors w s) ! i)"
  shows "\<exists>h. fired w (cases (selectors w s) ! i) = Some h \<and> readyAtCall w s i = Some h"
proof -
  let ?w1 = "Select_enter w"
  let ?k = "nextFrame w"
  let ?pair = "cases (selectors w s) ! i"
  let ?c = "channels w (sc_channel ?pair)"
  note same = Select_enter_same[OF fresh]
  have pair1: "cases (selectors ?w1 s) ! i = ?pair" by (simp add: same)
  show ?thesis
  proof (cases ?pair rule: select_case_kinds)
    case (Receive f)
    then have r: "buffer ?c \<noteq> [] \<or> ch_closed ?c \<or> senderWaits ?w1 ?c"
      using rdy by (simp add: caseReady_def isReceiveCase_def Let_def same)
    obtain v ok m c' w' where
      ra: "receiveAsyncImpl ?w1 ?c (Some (SelectReceiveCallback ?k f)) = ((v, ok, m), c', w')"
      by (metis prod_cases3)
    with receive_ready[OF r, of "Some (SelectReceiveCallback ?k f)"]
    have "v = firstOffered w ?c" "ok \<or> \<not> m" by (auto simp: same)
    with Receive ra show ?thesis
      by (simp add: readyAtCall_def select_case_def pair1 same fired_def Let_def)
  next
    case (ReceiveMore f)
    then have r: "buffer ?c \<noteq> [] \<or> ch_closed ?c \<or> senderWaits ?w1 ?c"
      using rdy by (simp add: caseReady_def isReceiveCase_def Let_def same)
    obtain v ok m c' w' where
      ra: "receiveAsyncImpl ?w1 ?c (Some (SelectReceiveMoreCallback ?k f)) = ((v, ok, m), c', w')"
      by (metis prod_cases3)
    with receive_ready[OF r, of "Some (SelectReceiveMoreCallback ?k f)"]
    have "v = firstOffered w ?c" "ok \<or> \<not> m" "m = (buffer ?c \<noteq> [] \<or> \<not> ch_closed ?c)"
      by (auto simp: same)
    with ReceiveMore ra show ?thesis
      by (simp add: readyAtCall_def select_case_def pair1 same fired_def Let_def)
  next
    case (Send f)
    then have "\<not> ch_closed ?c \<and>
        ((\<exists>r \<in> set (blockedReceives ?c). \<not> receiveRefuses ?w1 r) \<or>
         int (length (buffer ?c)) < ch_size ?c)"
      using rdy same(6)[of ?c]
      by (simp add: caseReady_def isReceiveCase_def isSendCase_def Let_def receiverWaits_def)
    with send_ok_iff(1)[of ?w1 ?c "sendValue ?pair"
        "Some \<lparr>pair_value = sendValue ?pair, pair_callback = SelectSendCallback ?k f\<rparr>"]
    obtain x where "sendAsyncImpl ?w1 ?c (sendValue ?pair)
        (Some \<lparr>pair_value = sendValue ?pair, pair_callback = SelectSendCallback ?k f\<rparr>) = Inr (True, x)"
      by blast
    with Send show ?thesis
      by (cases x) (simp add: readyAtCall_def select_case_def pair1 same fired_def Let_def)
  next
    case (Future f)
    let ?f = "sc_future ?pair"
    from Future have fc: "isFutureCase ?pair" by (simp add: isFutureCase_def)
    with sig have lt: "?f < length (futures w)"
      and rc: "ready (futures w ! ?f) \<longleftrightarrow> ch_closed (channel (futures w ! ?f))"
      by (simp_all add: futureSignalled_def)
    from Future rdy have rd: "ready (futures w ! ?f)"
      by (simp add: caseReady_def isReceiveCase_def isSendCase_def isFutureCase_def Let_def IsReady_def)
    from quiet lt have q: "buffer (channel (futures w ! ?f)) = []"
      "blockedSends (channel (futures w ! ?f)) = []"
      by (auto simp: futureChannelsQuiet_def)
    have "GetAsync ?w1 ?f (Some (SelectFutureCallback ?k s i f ?f)) =
            Inr ((fvalue (futures w ! ?f), True, ferr (futures w ! ?f)), ?w1)"
      using GetAsync_quiet[of ?f ?w1 "SelectFutureCallback ?k s i f ?f"] lt q rd rc
      by (simp add: same)
    with Future show ?thesis
      by (simp add: readyAtCall_def select_case_def pair1 same fired_def Let_def)
  next
    case Nothing
    with rdy show ?thesis
      by (simp add: caseReady_def isReceiveCase_def isSendCase_def isFutureCase_def Let_def)
  qed
qed

lemma caseNotReady_passes:
  assumes fresh: "readyBranch w (nextFrame w) = None"
    and quiet: "futureChannelsQuiet w"
    and sig: "futureSignalled w (cases (selectors w s) ! j)"
    and nrdy: "\<not> caseReady w (cases (selectors w s) ! j)"
    and open_send: "\<not> sendOnClosed w (cases (selectors w s) ! j)"
  shows "passedAtCall w s j"
proof -
  let ?w1 = "Select_enter w"
  let ?k = "nextFrame w"
  let ?pair = "cases (selectors w s) ! j"
  let ?c = "channels w (sc_channel ?pair)"
  note same = Select_enter_same[OF fresh]
  have pair1: "cases (selectors ?w1 s) ! j = ?pair" by (simp add: same)
  show ?thesis
  proof (cases ?pair rule: select_case_kinds)
    case (Receive f)
    then have r: "\<not> (buffer ?c \<noteq> [] \<or> ch_closed ?c \<or> senderWaits ?w1 ?c)"
      using nrdy by (simp add: caseReady_def isReceiveCase_def Let_def same)
    obtain v ok m c' w' where
      ra: "receiveAsyncImpl ?w1 ?c (Some (SelectReceiveCallback ?k f)) = ((v, ok, m), c', w')"
      by (metis prod_cases3)
    with receive_not_ready[OF r, of "Some (SelectReceiveCallback ?k f)"]
    have "\<not> ok" "m" by auto
    with Receive ra show ?thesis
      by (simp add: passedAtCall_def select_case_def pair1 same Let_def)
  next
    case (ReceiveMore f)
    then have r: "\<not> (buffer ?c \<noteq> [] \<or> ch_closed ?c \<or> senderWaits ?w1 ?c)"
      using nrdy by (simp add: caseReady_def isReceiveCase_def Let_def same)
    obtain v ok m c' w' where
      ra: "receiveAsyncImpl ?w1 ?c (Some (SelectReceiveMoreCallback ?k f)) = ((v, ok, m), c', w')"
      by (metis prod_cases3)
    with receive_not_ready[OF r, of "Some (SelectReceiveMoreCallback ?k f)"]
    have "\<not> ok" "m" by auto
    with ReceiveMore ra show ?thesis
      by (simp add: passedAtCall_def select_case_def pair1 same Let_def)
  next
    case (Send f)
    then have sc: "isSendCase ?pair" "\<not> isReceiveCase ?pair"
      by (simp_all add: isSendCase_def isReceiveCase_def)
    with open_send have o: "\<not> ch_closed ?c" by (simp add: sendOnClosed_def)
    with sc nrdy same(6)[of ?c] have "\<not> ch_closed ?c \<and>
        \<not> ((\<exists>r \<in> set (blockedReceives ?c). \<not> receiveRefuses ?w1 r) \<or>
           int (length (buffer ?c)) < ch_size ?c)"
      by (simp add: caseReady_def Let_def receiverWaits_def)
    with send_ok_iff(2)[of ?w1 ?c "sendValue ?pair"
        "Some \<lparr>pair_value = sendValue ?pair, pair_callback = SelectSendCallback ?k f\<rparr>"]
    obtain x where "sendAsyncImpl ?w1 ?c (sendValue ?pair)
        (Some \<lparr>pair_value = sendValue ?pair, pair_callback = SelectSendCallback ?k f\<rparr>) = Inr (False, x)"
      by blast
    with Send show ?thesis
      by (cases x) (simp add: passedAtCall_def select_case_def pair1 same Let_def)
  next
    case (Future f)
    let ?f = "sc_future ?pair"
    from Future have fc: "isFutureCase ?pair" by (simp add: isFutureCase_def)
    with sig have lt: "?f < length (futures w)"
      and rc: "ready (futures w ! ?f) \<longleftrightarrow> ch_closed (channel (futures w ! ?f))"
      by (simp_all add: futureSignalled_def)
    from Future nrdy have rd: "\<not> ready (futures w ! ?f)"
      by (simp add: caseReady_def isReceiveCase_def isSendCase_def isFutureCase_def Let_def IsReady_def)
    from quiet lt have q: "buffer (channel (futures w ! ?f)) = []"
      "blockedSends (channel (futures w ! ?f)) = []"
      by (auto simp: futureChannelsQuiet_def)
    have "\<exists>x. GetAsync ?w1 ?f (Some (SelectFutureCallback ?k s j f ?f)) =
            Inr ((Nil, False, None), x)"
      using GetAsync_quiet[of ?f ?w1 "SelectFutureCallback ?k s j f ?f"] lt q rd rc
      by (simp add: same)
    then obtain x where "GetAsync ?w1 ?f (Some (SelectFutureCallback ?k s j f ?f)) =
            Inr ((Nil, False, None), x)" by blast
    with Future show ?thesis
      by (simp add: passedAtCall_def select_case_def pair1 same Let_def)
  next
    case Nothing
    then show ?thesis
      by (simp add: passedAtCall_def select_case_def pair1 Let_def)
  qed
qed

text \<open>
  C3 (amended). Let case \<open>i\<close> be synchronously ready when \<open>Select\<close> is called
  (\<open>caseReady\<close>: read off the channels and futures), and let every earlier case be
  neither ready nor a send case on a closed channel (which panics). If no channel is used
  by both a receive case and a send case among the earlier cases, and the futures of the
  cases up to \<open>i\<close> are as \<open>Set\<close> leaves them (ready exactly when the channel is closed),
  then \<open>Select\<close> returns having invoked the handler of case \<open>i\<close>, with the value on offer,
  and nothing else. The other two hypotheses hold in every heap the program builds:
  nothing is ever sent on the channel of a future, and the \<open>readyBranch\<close> of an activation
  that has not begun is \<open>nil\<close>.
\<close>

theorem Select_fires_earliest_ready:
  assumes i: "i < length (cases (selectors w s))"
    and ready: "caseReady w (cases (selectors w s) ! i)"
    and earlier: "\<forall>j < i. \<not> caseReady w (cases (selectors w s) ! j) \<and>
                          \<not> sendOnClosed w (cases (selectors w s) ! j)"
    and nsr: "noSelfRendezvous (take i (cases (selectors w s)))"
    and sig: "\<forall>j \<le> i. futureSignalled w (cases (selectors w s) ! j)"
    and quiet: "futureChannelsQuiet w"
    and fresh: "readyBranch w (nextFrame w) = None"
  shows "\<exists>h w'. fired w (cases (selectors w s) ! i) = Some h \<and>
                handler (cases (selectors w s) ! i) = Some (invokedFunc h) \<and>
                Select w state s = Inr (Returned [h], state, w')"
proof -
  let ?cs = "cases (selectors w s)"
  have v: "\<And>j. j \<le> i \<Longrightarrow> futureSignalled w (?cs ! j)"
    using sig by blast
  from caseReady_fires[OF fresh quiet v[OF order_refl] ready]
  obtain h where h: "fired w (?cs ! i) = Some h" "readyAtCall w s i = Some h" by blast
  have p: "\<forall>j < i. passedAtCall w s j"
  proof (intro allI impI)
    fix j assume ji: "j < i"
    with earlier have "\<not> caseReady w (?cs ! j)" "\<not> sendOnClosed w (?cs ! j)" by blast+
    from caseNotReady_passes[OF fresh quiet v this] ji show "passedAtCall w s j" by simp
  qed
  from Select_first_success[OF i h(2) p nsr quiet, of state] h(1)
  show ?thesis by blast
qed

theorem Select_fires_earliest_ready_witness:
  "\<not> caseReady thirdReady (cases (selectors thirdReady 0) ! 0) \<and>
   \<not> caseReady thirdReady (cases (selectors thirdReady 0) ! 1) \<and>
   caseReady thirdReady (cases (selectors thirdReady 0) ! 2) \<and>
   handler (cases (selectors thirdReady 0) ! 2) = Some 11 \<and>
   selected (Select thirdReady (coroutine ''1'') 0) = Inr (Returned [CallReceive 11 (IntV 7)])"
proof -
  have i: "2 < length (cases (selectors thirdReady 0))"
    by (simp add: ready_defs selector_defs)
  have r0: "\<not> caseReady thirdReady (cases (selectors thirdReady 0) ! 0)"
    and s0: "\<not> sendOnClosed thirdReady (cases (selectors thirdReady 0) ! 0)"
    and r1: "\<not> caseReady thirdReady (cases (selectors thirdReady 0) ! 1)"
    and s1: "\<not> sendOnClosed thirdReady (cases (selectors thirdReady 0) ! 1)"
    and r2: "caseReady thirdReady (cases (selectors thirdReady 0) ! 2)"
    and f2: "fired thirdReady (cases (selectors thirdReady 0) ! 2) = Some (CallReceive 11 (IntV 7))"
    by (simp_all add: ready_defs selector_defs)
  from r0 s0 r1 s1
  have e: "\<forall>j < 2. \<not> caseReady thirdReady (cases (selectors thirdReady 0) ! j) \<and>
                    \<not> sendOnClosed thirdReady (cases (selectors thirdReady 0) ! j)"
    by (simp add: numeral_2_eq_2 All_less_Suc)
  have n: "noSelfRendezvous (take 2 (cases (selectors thirdReady 0)))"
    by (simp add: ready_defs selector_defs)
  have sg: "\<forall>j \<le> 2. futureSignalled thirdReady (cases (selectors thirdReady 0) ! j)"
    by (simp add: ready_defs selector_defs numeral_2_eq_2 All_less_Suc le_Suc_eq)
  have va: "futureChannelsQuiet thirdReady"
    by (simp add: ready_defs selector_defs)
  have fr: "readyBranch thirdReady (nextFrame thirdReady) = None"
    by (simp add: ready_defs selector_defs)
  from Select_fires_earliest_ready[OF i r2 e n sg va fr, of "coroutine ''1''"] f2
  have "handler (cases (selectors thirdReady 0) ! 2) = Some 11"
    "selected (Select thirdReady (coroutine ''1'') 0) = Inr (Returned [CallReceive 11 (IntV 7)])"
    by (auto simp: selected_def)
  with r0 r1 r2 show ?thesis by blast
qed

text \<open>
  The claim as it stands fails when a send case on a closed channel comes before the
  ready case: \<open>Select\<close> panics with "Closed channel" and invokes no handler.
\<close>

theorem Select_panics_before_ready_case:
  "\<not> caseReady sendClosedReceiveReady (cases (selectors sendClosedReceiveReady 0) ! 0) \<and>
   caseReady sendClosedReceiveReady (cases (selectors sendClosedReceiveReady 0) ! 1) \<and>
   Select sendClosedReceiveReady (coroutine ''1'') 0 = Inl ClosedChannel"
  by (simp add: ready_defs selector_defs)

text \<open>
  Why the amended statement excludes a receive case and a send case on one channel before
  the ready case: the send case finds the callback that the receive case of the same
  \<open>Select\<close> has just registered, hands it its value and counts as succeeded. Here cases 0
  and 1 are not ready when \<open>Select\<close> is called and case 2 is, and \<open>Select\<close> invokes the
  handler of case 1.
\<close>

lemma Select_self_rendezvous:
  "\<not> caseReady receiveThenSendSame (cases (selectors receiveThenSendSame 0) ! 0) \<and>
   \<not> caseReady receiveThenSendSame (cases (selectors receiveThenSendSame 0) ! 1) \<and>
   caseReady receiveThenSendSame (cases (selectors receiveThenSendSame 0) ! 2) \<and>
   selected (Select receiveThenSendSame (coroutine ''1'') 0) = Inr (Returned [CallSend 20])"
  by (simp add: ready_defs selector_defs)

text \<open>
  Why the amended statement asks for futures as \<open>Set\<close> leaves them: \<open>Select\<close> reads the
  readiness of a future off its channel. A future that the ready path of \<open>Chain\<close> has
  marked ready has its channel open, so \<open>Select\<close> passes over its case: it takes the
  default, or blocks.
\<close>

lemma Select_misses_future_made_ready_by_Chain:
  "IsReady chainedReadyOrDefault 0 \<and>
   caseReady chainedReadyOrDefault (cases (selectors chainedReadyOrDefault 0) ! 0) \<and>
   \<not> ch_closed (channel (futures chainedReadyOrDefault ! 0)) \<and>
   \<not> futureSignalled chainedReadyOrDefault (cases (selectors chainedReadyOrDefault 0) ! 0) \<and>
   selected (Select chainedReadyOrDefault (coroutine ''1'') 0) = Inr (Returned [CallDefault 99]) \<and>
   caseReady chainedReadyOnly (cases (selectors chainedReadyOnly 0) ! 0) \<and>
   selected (Select chainedReadyOnly (coroutine ''1'') 0) = Inr (Blocked 0)"
  by (simp add: ready_defs selector_defs GetAsync_def future_defs)

text \<open>
  A selector with one receive case on a channel that is open, has nothing buffered and no
  blocked sender, plus a default: \<open>Select\<close> invokes the default and returns, and the
  callback that it registered for the receive case is at the end of the blocked-receivers
  queue of the channel.
\<close>

lemma Select_default_registers_callback:
  assumes sel: "selectors w s = AddDefault (AddReceive (NewNamedSelector name) c f) d"
    and empty: "buffer (channels w c) = []" "blockedSends (channels w c) = []"
    and opened: "\<not> ch_closed (channels w c)"
  shows "\<exists>w'. Select w state s = Inr (Returned [CallDefault d], state, w') \<and>
              blockedReceives (channels w' c) =
                blockedReceives (channels w c) @ [SelectReceiveCallback (nextFrame w) f]"
  using assms
  by (simp add: Select_def Select_enter_def select_case_def Let_def AddDefault_def
        AddReceive_def NewNamedSelector_def receiveAsyncImpl_def)

text \<open>
  C4. In \<open>receiveOrDefault\<close> (a receive case on the empty, open channel 0, and a default)
  \<open>Select\<close> invokes the default and returns, but the callback it registered for the
  receive case remains in the blocked-receivers queue of the channel. It is armed:
  \<open>readyBranch\<close> of the finished \<open>Select\<close> is still \<open>nil\<close>, which is the only thing that
  makes a callback of \<open>Select\<close> refuse. The next \<open>SendAsync(5)\<close> hands it the value and
  reports success; nothing is buffered, and the value sits in a \<open>readyBranch\<close> that
  nobody will run. The non-blocking receive, which passes no callback, leaves the queue
  empty.
\<close>

theorem Select_default_leaves_armed_callback:
  "blockedReceives (channels receiveOrDefault 0) = [] \<and>
   selected (Select receiveOrDefault (coroutine ''1'') 0) = Inr (Returned [CallDefault 99]) \<and>
   blockedReceives (channels defaultTaken 0) = [SelectReceiveCallback 0 10] \<and>
   \<not> receiveRefuses defaultTaken (SelectReceiveCallback 0 10) \<and>
   map_sum id fst (SendAsync defaultTaken 0 (IntV 5)) = Inr True \<and>
   map_sum id (\<lambda>r. buffer (channels (snd r) 0)) (SendAsync defaultTaken 0 (IntV 5)) = Inr [] \<and>
   map_sum id (\<lambda>r. readyBranch (snd r) 0) (SendAsync defaultTaken 0 (IntV 5)) =
     Inr (Some (CallReceive 10 (IntV 5))) \<and>
   blockedReceives (channels (snd (ReceiveAsyncWithMoreFlag receiveOrDefault 0)) 0) = []"
  by (simp add: selector_defs)

end
